theory Spec2Isabelle
  imports Main "HOL-Library.Sublist"
begin

section \<open>The document tree of scripts/cleanup\_html.py\<close>

text \<open>
  The Python class \<open>Node\<close> has the slots \<open>tag\<close>, \<open>attrs\<close>, \<open>children\<close>, \<open>text\<close>,
  \<open>parent\<close>, \<open>is_doctype\<close> and \<open>is_comment\<close>. One class serves all four kinds of node:
  an element has a tag; a text node has \<open>tag = None\<close> and a text; a comment and a doctype
  have \<open>tag = None\<close>, a text and their flag set.

  The model is a tree value. A reference to a node object is its path from the root
  (the list of child indices); the slot \<open>parent\<close> is not stored, the parent of the node
  at path \<open>p @ [i]\<close> being the node at \<open>p\<close>. Only what is reachable from the root is
  represented: a subtree that the code detaches is dropped.

  A Python \<open>str\<close> is modelled by \<^typ>\<open>string\<close>; a \<^typ>\<open>char\<close> stands for a code point
  below 256. A \<open>dict\<close> of attributes is an association list with unique keys in
  insertion order. The \<open>stats\<close> counters, which the passes only increment and never read,
  are not modelled.
\<close>

type_synonym path = "nat list"

datatype node = Node
  (tag: "string option")
  (attrs: "(string \<times> string) list")
  (children: "node list")
  (node_text: "string option")
  (is_doctype: bool)
  (is_comment: bool)

definition element :: "string \<Rightarrow> (string \<times> string) list \<Rightarrow> node" where
  \<comment> \<open>\<open>Node(tag, attrs)\<close>\<close>
  "element t a = Node (Some t) a [] None False False"

definition text_node :: "string \<Rightarrow> node" where
  \<comment> \<open>\<open>Node(text=data)\<close>\<close>
  "text_node d = Node None [] [] (Some d) False False"

definition comment_node :: "string \<Rightarrow> node" where
  \<comment> \<open>\<open>Node(text=data, is_comment=True)\<close>\<close>
  "comment_node d = Node None [] [] (Some d) False True"

definition doctype_node :: "string \<Rightarrow> node" where
  \<comment> \<open>\<open>Node(text=decl, is_doctype=True)\<close>\<close>
  "doctype_node d = Node None [] [] (Some d) True False"

definition set_children :: "node \<Rightarrow> node list \<Rightarrow> node" where
  "set_children n cs = Node (tag n) (attrs n) cs (node_text n) (is_doctype n) (is_comment n)"

definition set_tag :: "string \<Rightarrow> node \<Rightarrow> node" where
  "set_tag t n = Node (Some t) (attrs n) (children n) (node_text n) (is_doctype n) (is_comment n)"

definition set_attrs :: "(string \<times> string) list \<Rightarrow> node \<Rightarrow> node" where
  "set_attrs a n = Node (tag n) a (children n) (node_text n) (is_doctype n) (is_comment n)"

definition set_text :: "string option \<Rightarrow> node \<Rightarrow> node" where
  "set_text t n = Node (tag n) (attrs n) (children n) t (is_doctype n) (is_comment n)"

definition VOID_ELEMENTS :: "string list" where
  "VOID_ELEMENTS = [''area'', ''base'', ''br'', ''col'', ''embed'', ''hr'', ''img'', ''input'',
     ''link'', ''meta'', ''param'', ''source'', ''track'', ''wbr'']"

definition PRESERVE_WHITESPACE_TAGS :: "string list" where
  "PRESERVE_WHITESPACE_TAGS = [''pre'', ''code'', ''textarea'', ''script'', ''style'']"

definition FOOTER_CANDIDATE_TAGS :: "string list" where
  "FOOTER_CANDIDATE_TAGS = [''p'', ''div'', ''section'', ''span'', ''small'', ''footer'',
     ''aside'', ''blockquote'', ''ul'', ''ol'', ''li'']"

definition tag_in :: "string option \<Rightarrow> string list \<Rightarrow> bool" where
  \<comment> \<open>\<open>node.tag in NAMES\<close>; \<open>None\<close> is in no set of strings\<close>
  "tag_in t names = (case t of None \<Rightarrow> False | Some s \<Rightarrow> s \<in> set names)"

definition truthy :: "string option \<Rightarrow> bool" where
  \<comment> \<open>Python's truth value of an optional string: \<open>None\<close> and \<open>""\<close> are false\<close>
  "truthy t = (case t of None \<Rightarrow> False | Some s \<Rightarrow> s \<noteq> [])"

definition or_empty :: "string option \<Rightarrow> string" where
  \<comment> \<open>\<open>x or ""\<close>\<close>
  "or_empty t = (case t of None \<Rightarrow> [] | Some s \<Rightarrow> s)"

subsection \<open>Strings\<close>

definition is_space :: "char \<Rightarrow> bool" where
  \<comment> \<open>\<open>str.isspace\<close> on the code points below 256\<close>
  "is_space c = (c \<in> set [CHR 0x09, CHR 0x0A, CHR 0x0B, CHR 0x0C, CHR 0x0D, CHR 0x1C,
     CHR 0x1D, CHR 0x1E, CHR 0x1F, CHR 0x20, CHR 0x85, CHR 0xA0])"

definition strip :: "string \<Rightarrow> string" where
  \<comment> \<open>\<open>str.strip()\<close>\<close>
  "strip s = rev (dropWhile is_space (rev (dropWhile is_space s)))"

definition replace_char :: "char \<Rightarrow> string \<Rightarrow> string \<Rightarrow> string" where
  \<comment> \<open>\<open>s.replace(c, r)\<close> for a single character \<open>c\<close>\<close>
  "replace_char c r s = concat (map (\<lambda>x. if x = c then r else [x]) s)"

definition ascii_lower :: "char \<Rightarrow> char" where
  "ascii_lower c =
     (if (65::nat) \<le> of_char c \<and> of_char c \<le> (90::nat)
      then char_of (of_char c + (32::nat)) else c)"

primrec contains :: "string \<Rightarrow> string \<Rightarrow> bool" where
  \<comment> \<open>\<open>pat in s\<close>\<close>
  "contains pat [] = (pat = [])"
| "contains pat (c # cs) = (prefix pat (c # cs) \<or> contains pat cs)"

definition FOOTER_PATTERN_search :: "string \<Rightarrow> bool" where
  \<comment> \<open>\<open>FOOTER_PATTERN.search(s)\<close> is a match, for the pattern
      \<open>(\<copyright>|creative commons)\<close> compiled with \<open>re.IGNORECASE\<close>. Below 256 only the ASCII
      capitals fold to the letters of the phrase; U+00A9 has no case.\<close>
  "FOOTER_PATTERN_search s =
     (CHR 0xA9 \<in> set s \<or> contains ''creative commons'' (map ascii_lower s))"

subsection \<open>References into the tree\<close>

fun get_at :: "node \<Rightarrow> path \<Rightarrow> node option" where
  "get_at n [] = Some n"
| "get_at n (i # p) = (if i < length (children n) then get_at (children n ! i) p else None)"

fun modify_at :: "(node \<Rightarrow> node) \<Rightarrow> node \<Rightarrow> path \<Rightarrow> node" where
  \<comment> \<open>the tree after the node at the path was mutated by \<open>f\<close>\<close>
  "modify_at f n [] = f n"
| "modify_at f n (i # p) =
     (if i < length (children n)
      then set_children n ((children n)[i := modify_at f (children n ! i) p])
      else n)"

definition tag_at :: "node \<Rightarrow> path \<Rightarrow> string option" where
  \<comment> \<open>\<open>ref.tag\<close>\<close>
  "tag_at r p = (case get_at r p of None \<Rightarrow> None | Some n \<Rightarrow> tag n)"

definition child_count :: "node \<Rightarrow> path \<Rightarrow> nat" where
  \<comment> \<open>\<open>len(ref.children)\<close>\<close>
  "child_count r p = (case get_at r p of None \<Rightarrow> 0 | Some n \<Rightarrow> length (children n))"

definition append_child :: "node \<Rightarrow> path \<Rightarrow> node \<Rightarrow> node" where
  \<comment> \<open>\<open>Node.append\<close>: \<open>ref.children.append(node)\<close>; the new child is at
      \<open>p @ [child_count r p]\<close>\<close>
  "append_child r p c = modify_at (\<lambda>n. set_children n (children n @ [c])) r p"

definition remove_at :: "node \<Rightarrow> path \<Rightarrow> node" where
  \<comment> \<open>\<open>remove_node(ref)\<close>: the parent drops the child; the root has no parent and stays\<close>
  "remove_at r p =
     (if p = [] then r
      else modify_at (\<lambda>n. set_children n (take (last p) (children n) @ drop (Suc (last p)) (children n)))
             r (butlast p))"

definition unwrap :: "node \<Rightarrow> path \<Rightarrow> node" where
  \<comment> \<open>\<open>unwrap(ref)\<close>: the parent's child list gets the node's children in the node's place\<close>
  "unwrap r p =
     (if p = [] then r
      else modify_at (\<lambda>n. if last p < length (children n)
               then set_children n (take (last p) (children n)
                      @ children (children n ! last p)
                      @ drop (Suc (last p)) (children n))
               else n)
             r (butlast p))"

subsection \<open>Queries\<close>

fun iter_tags :: "node \<Rightarrow> string list \<Rightarrow> path list"
  and iter_tags_from :: "nat \<Rightarrow> node list \<Rightarrow> string list \<Rightarrow> path list" where
  \<comment> \<open>the references that the generator \<open>iter_tags(node, *names)\<close> yields, in its order;
      \<open>iter_tags_from i cs\<close> is the loop over the children from index \<open>i\<close> on\<close>
  "iter_tags (Node t a cs x d c) names = iter_tags_from 0 cs names"
| "iter_tags_from i [] names = []"
| "iter_tags_from i (c # cs) names =
     (if truthy (tag c)
      then (if filter (\<lambda>x. x \<noteq> []) names = [] \<or> tag_in (tag c) (filter (\<lambda>x. x \<noteq> []) names)
            then [[i]] else [])
           @ map ((#) i) (iter_tags c names)
      else [])
     @ iter_tags_from (Suc i) cs names"

fun get_text :: "node \<Rightarrow> string" where
  "get_text (Node t a cs x d c) =
     (if t = None then or_empty x
      else if c \<or> d then []
      else concat (map get_text cs))"

definition is_whitespace_node :: "node \<Rightarrow> bool" where
  "is_whitespace_node n = (tag n = None \<and> strip (or_empty (node_text n)) = [])"

definition meaningful_children :: "node \<Rightarrow> node list" where
  "meaningful_children n =
     filter (\<lambda>c. \<not> (is_comment c \<or> is_doctype c)
                \<and> \<not> (tag c = None \<and> strip (or_empty (node_text c)) = []))
       (children n)"

section \<open>The tree builder\<close>

text \<open>
  \<open>DOMBuilder\<close> receives the tokenizer's events from \<open>html.parser.HTMLParser\<close> (the
  standard library, not a part of the repository): the handlers it overrides are the
  constructors of \<open>event\<close>. Its state is the root and the stack of open elements, a list
  of references with the root's at index 0. \<open>self.stack[-1]\<close> raises \<open>IndexError\<close> on an
  empty stack. The tokenizer itself raises \<open>AssertionError\<close> on some texts, before or
  between handler calls; \<open>parse_html\<close> catches nothing, so the exception ends it.
\<close>

datatype event =
    StartTag string "(string \<times> string option) list"
  | StartEndTag string "(string \<times> string option) list"
  | EndTag string
  | Data string
  | Comment string
  | Decl string

datatype error = IndexError | AssertionError

record builder =
  root :: node
  stack :: "path list"

definition dict_set :: "string \<Rightarrow> string \<Rightarrow> (string \<times> string) list \<Rightarrow> (string \<times> string) list" where
  \<comment> \<open>\<open>d[k] = v\<close>: an existing key keeps its place\<close>
  "dict_set k v d =
     (if k \<in> fst ` set d then map (\<lambda>(k', v'). if k' = k then (k', v) else (k', v')) d
      else d @ [(k, v)])"

definition dict_get :: "(string \<times> string) list \<Rightarrow> string \<Rightarrow> string option" where
  \<comment> \<open>\<open>d.get(k)\<close>\<close>
  "dict_get d k = map_of d k"

definition attrs_dict :: "(string \<times> string option) list \<Rightarrow> (string \<times> string) list" where
  \<comment> \<open>\<open>{name: value or "" for name, value in attrs}\<close>\<close>
  "attrs_dict a = foldl (\<lambda>d (k, v). dict_set k (or_empty v) d) [] a"

definition new_builder :: builder where
  "new_builder = \<lparr>root = element ''root'' [], stack = [[]]\<rparr>"

definition append_top :: "builder \<Rightarrow> node \<Rightarrow> bool \<Rightarrow> error + builder" where
  \<comment> \<open>\<open>self.stack[-1].append(node)\<close>, then \<open>self.stack.append(node)\<close> when \<open>push\<close>\<close>
  "append_top b n push =
     (if stack b = [] then Inl IndexError
      else let p = last (stack b) in
        Inr \<lparr>root = append_child (root b) p n,
             stack = (if push then stack b @ [p @ [child_count (root b) p]] else stack b)\<rparr>)"

definition handle_starttag :: "builder \<Rightarrow> string \<Rightarrow> (string \<times> string option) list \<Rightarrow> error + builder" where
  "handle_starttag b t a = append_top b (element t (attrs_dict a)) (t \<notin> set VOID_ELEMENTS)"

definition handle_startendtag :: "builder \<Rightarrow> string \<Rightarrow> (string \<times> string option) list \<Rightarrow> error + builder" where
  "handle_startendtag b t a = append_top b (element t (attrs_dict a)) False"

fun endtag_scan :: "node \<Rightarrow> path list \<Rightarrow> string \<Rightarrow> nat \<Rightarrow> path list" where
  \<comment> \<open>the loop \<open>for index in range(len(self.stack) - 1, 0, -1)\<close> from \<open>index\<close> down\<close>
  "endtag_scan r st t 0 = st"
| "endtag_scan r st t (Suc i) =
     (if tag_at r (st ! Suc i) = Some t then take (Suc i) st else endtag_scan r st t i)"

definition handle_endtag :: "builder \<Rightarrow> string \<Rightarrow> builder" where
  "handle_endtag b t = b\<lparr>stack := endtag_scan (root b) (stack b) t (length (stack b) - 1)\<rparr>"

definition handle_data :: "builder \<Rightarrow> string \<Rightarrow> error + builder" where
  "handle_data b d = (if d \<noteq> [] then append_top b (text_node d) False else Inr b)"

definition handle_comment :: "builder \<Rightarrow> string \<Rightarrow> error + builder" where
  "handle_comment b d = append_top b (comment_node d) False"

definition handle_decl :: "builder \<Rightarrow> string \<Rightarrow> error + builder" where
  "handle_decl b d = append_top b (doctype_node d) False"

fun handle :: "builder \<Rightarrow> event \<Rightarrow> error + builder" where
  "handle b (StartTag t a) = handle_starttag b t a"
| "handle b (StartEndTag t a) = handle_startendtag b t a"
| "handle b (EndTag t) = Inr (handle_endtag b t)"
| "handle b (Data d) = handle_data b d"
| "handle b (Comment d) = handle_comment b d"
| "handle b (Decl d) = handle_decl b d"

fun feed :: "builder \<Rightarrow> event list \<Rightarrow> error + builder" where
  \<comment> \<open>the handler calls of \<open>parser.feed(content); parser.close()\<close>, an exception ending them\<close>
  "feed b [] = Inr b"
| "feed b (e # es) = (case handle b e of Inl x \<Rightarrow> Inl x | Inr b' \<Rightarrow> feed b' es)"

definition parse_html :: "(string \<Rightarrow> error + event list) \<Rightarrow> string \<Rightarrow> error + node" where
  \<comment> \<open>\<open>tokens\<close> is the tokenizer of the standard library: the handler calls that
      \<open>parser.feed(content); parser.close()\<close> makes, or the exception that it raises\<close>
  "parse_html tokens content =
     (case tokens content of
        Inl x \<Rightarrow> Inl x
      | Inr evs \<Rightarrow> (case feed new_builder evs of Inl x \<Rightarrow> Inl x | Inr b \<Rightarrow> Inr (root b)))"


section \<open>The rewrite passes\<close>

subsection \<open>References after a removal\<close>

text \<open>
  The passes keep references to nodes while they remove others. When the child at path
  \<open>c\<close> leaves its parent's list, the later children of that parent move down by one:
  \<open>after_remove c q\<close> is where the node referenced by \<open>q\<close> is afterwards, and \<open>None\<close> when
  it was inside the removed subtree and so has left the tree.
\<close>

fun after_remove :: "path \<Rightarrow> path \<Rightarrow> path option" where
  "after_remove [] q = None"
| "after_remove (k # c) [] = Some []"
| "after_remove [k] (j # q) =
     (if j = k then None else if k < j then Some ((j - 1) # q) else Some (j # q))"
| "after_remove (k # c) (j # q) =
     (if j = k then map_option ((#) j) (after_remove c q) else Some (j # q))"

definition ref_after_remove :: "path \<Rightarrow> path option \<Rightarrow> path option" where
  "ref_after_remove c q = (case q of None \<Rightarrow> None | Some q' \<Rightarrow> after_remove c q')"

subsection \<open>clean\_whitespace\<close>

lemma size_set_text [simp]: "size (set_text x n) = size n"
  by (cases n) (simp add: set_text_def)

fun clean_whitespace :: "node \<Rightarrow> bool \<Rightarrow> node"
  and clean_children :: "node list \<Rightarrow> bool \<Rightarrow> node list" where
  \<comment> \<open>\<open>clean_children cs preserve\<close> is the loop \<open>for child in list(node.children)\<close>: the
      children that stay, cleaned\<close>
  "clean_whitespace (Node t a cs x d c) preserve =
     Node t a
       (clean_children cs
          (preserve \<or> (if truthy t then tag_in t PRESERVE_WHITESPACE_TAGS else False)))
       x d c"
| "clean_children [] preserve = []"
| "clean_children (ch # cs) preserve =
     (if tag ch = None then
        (if preserve then [ch]
         else
           let x1 = (if truthy (node_text ch) \<and> CHR 0x0D \<in> set (or_empty (node_text ch))
                     then Some (replace_char (CHR 0x0D) [] (or_empty (node_text ch)))
                     else node_text ch);
               x2 = (if truthy x1 \<and> CHR 0x09 \<in> set (or_empty x1)
                     then Some (replace_char (CHR 0x09) '' '' (or_empty x1))
                     else x1)
           in if strip (or_empty x2) = [] then []
              else [clean_whitespace (set_text x2 ch) preserve])
      else [clean_whitespace ch preserve])
     @ clean_children cs preserve"

subsection \<open>remove\_redundant\_wrappers\<close>

definition is_wrapper :: "node \<Rightarrow> bool" where
  \<comment> \<open>the loop body's test of one \<open>div\<close>: it is unwrapped\<close>
  "is_wrapper dv =
     (attrs dv = [] \<and>
      (case meaningful_children dv of
         [child] \<Rightarrow>
           (tag_in (tag child) [''section'', ''main''] \<and>
              \<not> (\<exists>c \<in> set (children dv). tag c = None \<and> strip (or_empty (node_text c)) \<noteq> []))
           \<or> (tag child = Some ''div'' \<and> attrs child = [])
       | _ \<Rightarrow> False))"

definition is_wrapper_at :: "node \<Rightarrow> path \<Rightarrow> bool" where
  "is_wrapper_at r p = (case get_at r p of None \<Rightarrow> False | Some dv \<Rightarrow> is_wrapper dv)"

definition find_wrapper :: "node \<Rightarrow> path option" where
  \<comment> \<open>the first \<open>div\<close> of \<open>list(iter_tags(root, "div"))\<close> at which the \<open>for\<close> loop breaks\<close>
  "find_wrapper r = find (is_wrapper_at r) (iter_tags r [''div''])"

fun node_count :: "node \<Rightarrow> nat" where
  "node_count (Node t a cs x d c) = Suc (sum_list (map node_count cs))"


lemma get_at_append:
  "get_at r (p @ q) = (case get_at r p of None \<Rightarrow> None | Some n \<Rightarrow> get_at n q)"
  by (induction p arbitrary: r) auto

lemma get_at_butlast:
  assumes "get_at r p = Some n" and "p \<noteq> []"
  shows "\<exists>par. get_at r (butlast p) = Some par \<and> last p < length (children par)
           \<and> children par ! last p = n"
proof -
  from assms(2) have "p = butlast p @ [last p]" by simp
  with assms(1) have "get_at r (butlast p @ [last p]) = Some n" by simp
  then show ?thesis by (auto simp: get_at_append split: option.splits if_splits)
qed

lemma iter_tags_valid_aux:
  "q \<in> set (iter_tags n names) \<longrightarrow> q \<noteq> [] \<and> (\<exists>m. get_at n q = Some m \<and> truthy (tag m))"
  "q \<in> set (iter_tags_from i cs names) \<longrightarrow>
     (\<exists>j q'. q = (i + j) # q' \<and> j < length cs
        \<and> (\<exists>m. get_at (cs ! j) q' = Some m \<and> truthy (tag m)))"
proof (induction n names and i cs names arbitrary: q and q rule: iter_tags_iter_tags_from.induct)
  case (1 t a cs x d c names)
  then show ?case by fastforce
next
  case (2 i names)
  then show ?case by simp
next
  case (3 i c cs names)
  show ?case
  proof
    assume q: "q \<in> set (iter_tags_from i (c # cs) names)"
    then consider (here) "q = [i]" "truthy (tag c)"
      | (below) q' where "q = i # q'" "q' \<in> set (iter_tags c names)" "truthy (tag c)"
      | (later) "q \<in> set (iter_tags_from (Suc i) cs names)"
      by (auto split: if_splits)
    then show "\<exists>j q'. q = (i + j) # q' \<and> j < length (c # cs) \<and>
        (\<exists>m. get_at ((c # cs) ! j) q' = Some m \<and> truthy (tag m))"
    proof cases
      case here
      then show ?thesis by (intro exI[of _ 0] exI[of _ "[]"]) simp
    next
      case below
      with 3 have "\<exists>m. get_at c q' = Some m \<and> truthy (tag m)" by blast
      with below show ?thesis by (intro exI[of _ 0] exI[of _ q']) simp
    next
      case later
      with 3 obtain j q' where "q = (Suc i + j) # q'" "j < length cs"
        "\<exists>m. get_at (cs ! j) q' = Some m \<and> truthy (tag m)" by blast
      then show ?thesis by (intro exI[of _ "Suc j"] exI[of _ q']) simp
    qed
  qed
qed

lemma iter_tags_valid:
  "q \<in> set (iter_tags r names) \<Longrightarrow> q \<noteq> [] \<and> (\<exists>m. get_at r q = Some m \<and> truthy (tag m))"
  using iter_tags_valid_aux(1) by blast

lemma node_count_children: "node_count n = Suc (sum_list (map node_count (children n)))"
  by (cases n) simp

lemma node_count_set_children:
  "node_count (set_children n cs) = Suc (sum_list (map node_count cs))"
  by (simp add: set_children_def)

lemma node_count_pos: "0 < node_count n"
  by (cases n) simp

lemma sum_list_update_less:
  fixes xs :: "nat list"
  assumes "i < length xs" and "x < xs ! i"
  shows "sum_list (xs[i := x]) < sum_list xs"
proof -
  have "xs ! i \<le> sum_list xs"
    using assms(1) by (simp add: member_le_sum_list)
  with assms show ?thesis by (simp add: sum_list_update)
qed

lemma node_count_modify_less:
  "get_at r p = Some n \<Longrightarrow> node_count (f n) < node_count n
     \<Longrightarrow> node_count (modify_at f r p) < node_count r"
proof (induction p arbitrary: r)
  case Nil
  then show ?case by simp
next
  case (Cons i p)
  from Cons.prems(1) have i: "i < length (children r)"
    and g: "get_at (children r ! i) p = Some n"
    by (auto split: if_splits)
  from Cons.IH[OF g Cons.prems(2)]
  have "node_count (modify_at f (children r ! i) p) < node_count (children r ! i)" .
  with i have "sum_list ((map node_count (children r))[i := node_count (modify_at f (children r ! i) p)])
      < sum_list (map node_count (children r))"
    by (intro sum_list_update_less) simp_all
  with i show ?case
    by (simp add: node_count_set_children map_update node_count_children[of r])
qed

lemma node_count_unwrap:
  assumes "get_at r p = Some n" and "p \<noteq> []"
  shows "node_count (unwrap r p) < node_count r"
proof -
  from get_at_butlast[OF assms] obtain par where par: "get_at r (butlast p) = Some par"
    and l: "last p < length (children par)" and c: "children par ! last p = n"
    by blast
  let ?f = "\<lambda>m. if last p < length (children m)
               then set_children m (take (last p) (children m)
                      @ children (children m ! last p)
                      @ drop (Suc (last p)) (children m))
               else m"
  have "children par = take (last p) (children par) @ n # drop (Suc (last p)) (children par)"
    using l c by (metis id_take_nth_drop)
  then have "sum_list (map node_count (children par)) =
      sum_list (map node_count (take (last p) (children par))) + node_count n
        + sum_list (map node_count (drop (Suc (last p)) (children par)))"
    by (metis (no_types) add.assoc list.simps(9) map_append sum_list.Cons sum_list_append)
  then have "node_count (?f par) < node_count par"
    using l c by (simp add: node_count_set_children node_count_children[of par]
        node_count_children[of n])
  from node_count_modify_less[OF par, of ?f, OF this] assms(2)
  show ?thesis by (simp add: unwrap_def)
qed

lemma find_wrapper_valid:
  assumes "find_wrapper r = Some p"
  shows "p \<in> set (iter_tags r [''div'']) \<and> is_wrapper_at r p"
  using assms unfolding find_wrapper_def by (auto simp: find_Some_iff)

function remove_redundant_wrappers :: "node \<Rightarrow> node" where
  \<comment> \<open>one round of the \<open>while changed\<close> loop per call: the scan unwraps the first
      wrapper and breaks, and the loop ends after a scan that found none\<close>
  "remove_redundant_wrappers r =
     (case find_wrapper r of
        None \<Rightarrow> r
      | Some p \<Rightarrow> remove_redundant_wrappers (unwrap r p))"
  by pat_completeness auto
termination
proof (relation "measure node_count")
  show "wf (measure node_count)" by simp
next
  fix r p
  assume "find_wrapper r = Some p"
  then have "p \<in> set (iter_tags r [''div''])" using find_wrapper_valid by blast
  then have "p \<noteq> []" "\<exists>m. get_at r p = Some m" using iter_tags_valid by blast+
  then show "(unwrap r p, r) \<in> measure node_count"
    using node_count_unwrap by auto
qed

declare remove_redundant_wrappers.simps [simp del]


subsection \<open>remove\_empty\_headings and remove\_empty\_italics\<close>

fun remove_loop :: "(node \<Rightarrow> bool) \<Rightarrow> node \<Rightarrow> path option list \<Rightarrow> node" where
  \<comment> \<open>\<open>for ref in refs: if cond(ref): remove_node(ref)\<close> over a list made before the
      loop. A reference that has left the tree is \<open>None\<close>: removing that node from its
      parent changes nothing that the root reaches.\<close>
  "remove_loop cond r [] = r"
| "remove_loop cond r (None # ps) = remove_loop cond r ps"
| "remove_loop cond r (Some p # ps) =
     (case get_at r p of
        None \<Rightarrow> remove_loop cond r ps
      | Some n \<Rightarrow>
          if cond n then remove_loop cond (remove_at r p) (map (ref_after_remove p) ps)
          else remove_loop cond r ps)"

definition remove_empty_headings :: "node \<Rightarrow> node" where
  "remove_empty_headings r =
     remove_loop (\<lambda>heading. strip (get_text heading) = []) r
       (map Some (iter_tags r [''h1'', ''h2'']))"

definition remove_empty_italics :: "node \<Rightarrow> node" where
  "remove_empty_italics r =
     remove_loop (\<lambda>italic. attrs italic = [] \<and> strip (get_text italic) = []
                    \<and> \<not> (\<exists>child \<in> set (children italic). truthy (tag child)))
       r (map Some (iter_tags r [''i'']))"

subsection \<open>add\_alt\_text\<close>

definition add_alt :: "node \<Rightarrow> node" where
  \<comment> \<open>the loop body on one image\<close>
  "add_alt im =
     (case dict_get (attrs im) ''alt'' of
        None \<Rightarrow> set_attrs (dict_set ''alt'' ''Image description'' (attrs im)) im
      | Some alt \<Rightarrow>
          if alt = [] \<or> strip alt = []
          then set_attrs (dict_set ''alt'' ''Image description'' (attrs im)) im
          else im)"

definition add_alt_text :: "node \<Rightarrow> node" where
  "add_alt_text r = foldl (modify_at add_alt) r (iter_tags r [''img''])"

subsection \<open>normalize\_headings\<close>

definition HEADING_TAGS :: "string list" where
  "HEADING_TAGS = [''h1'', ''h2'', ''h3'', ''h4'', ''h5'', ''h6'']"

definition text_at :: "node \<Rightarrow> path \<Rightarrow> string" where
  \<comment> \<open>\<open>get_text(ref)\<close>\<close>
  "text_at r p = (case get_at r p of None \<Rightarrow> [] | Some n \<Rightarrow> get_text n)"

definition headings :: "node \<Rightarrow> path list" where
  \<comment> \<open>the list \<open>headings\<close> of \<open>normalize_headings\<close>\<close>
  "headings r = filter (\<lambda>p. strip (text_at r p) \<noteq> []) (iter_tags r HEADING_TAGS)"

definition retag_first :: "node \<Rightarrow> path \<Rightarrow> node" where
  "retag_first r p = (if tag_at r p \<noteq> Some ''h1'' then modify_at (set_tag ''h1'') r p else r)"

definition retag_later :: "node \<Rightarrow> path \<Rightarrow> node" where
  \<comment> \<open>the body of \<open>for heading in headings[1:]\<close>\<close>
  "retag_later r p =
     (if tag_at r p = Some ''h1'' then modify_at (set_tag ''h2'') r p
      else if tag_in (tag_at r p) [''h4'', ''h5'', ''h6''] then modify_at (set_tag ''h3'') r p
      else r)"

definition normalize_headings :: "node \<Rightarrow> node" where
  "normalize_headings r =
     (case headings r of
        [] \<Rightarrow> r
      | first # rest \<Rightarrow> foldl retag_later (retag_first r first) rest)"

subsection \<open>move\_footer\_elements\<close>

definition find_ancestor :: "node \<Rightarrow> path \<Rightarrow> string list \<Rightarrow> path option" where
  \<comment> \<open>the walk up the \<open>parent\<close> links: the proper prefixes of the path, nearest first\<close>
  "find_ancestor r p names =
     find (\<lambda>q. tag_in (tag_at r q) names) (rev (butlast (prefixes p)))"

definition is_descendant :: "path \<Rightarrow> path \<Rightarrow> bool" where
  \<comment> \<open>\<open>is_descendant(node, potential_ancestor)\<close>\<close>
  "is_descendant p q = strict_prefix q p"

definition is_candidate :: "node \<Rightarrow> path \<Rightarrow> bool" where
  \<comment> \<open>the first loop of \<open>move_footer_elements\<close> appends the element to \<open>candidates\<close>\<close>
  "is_candidate r p =
     (\<not> tag_in (tag_at r p) [''script'', ''style'', ''noscript'']
      \<and> tag_in (tag_at r p) FOOTER_CANDIDATE_TAGS
      \<and> FOOTER_PATTERN_search (text_at r p)
      \<and> find_ancestor r p [''footer''] = None
      \<and> \<not> 400 < length (strip (text_at r p)))"

definition candidates :: "node \<Rightarrow> path list" where
  "candidates r = filter (is_candidate r) (iter_tags r [])"

definition outermost :: "path list \<Rightarrow> path list" where
  \<comment> \<open>the list \<open>filtered\<close>\<close>
  "outermost cs = filter (\<lambda>p. \<not> (\<exists>other \<in> set cs. other \<noteq> p \<and> is_descendant p other)) cs"

definition under_main :: "path \<Rightarrow> path \<Rightarrow> path" where
  \<comment> \<open>where a reference points after the children of the body at \<open>b\<close> went into the new
      \<open>main\<close>, the only child of the body\<close>
  "under_main b q = (if strict_prefix b q then b @ 0 # drop (length b) q else q)"

definition wrap_in_main :: "node \<Rightarrow> node" where
  \<comment> \<open>the body after \<open>main = Node("main")\<close>, the loop that moves every child of the body
      into it, and \<open>body.append(main)\<close>\<close>
  "wrap_in_main body = set_children body [set_children (element ''main'' []) (children body)]"

definition find_index_of :: "('a \<Rightarrow> bool) \<Rightarrow> 'a list \<Rightarrow> nat option" where
  "find_index_of P xs = (if \<exists>x \<in> set xs. P x then Some (length (takeWhile (\<lambda>x. \<not> P x) xs)) else None)"

fun move_loop :: "node \<Rightarrow> path option \<Rightarrow> path option list \<Rightarrow> node" where
  \<comment> \<open>the last loop: \<open>parent.remove(node); footer.append(node)\<close>. The footer's reference is
      \<open>None\<close> once the footer has left the tree (it was the moved node or inside it):
      what is appended to it then is not reachable from the root. The candidates are not
      inside one another, so none of them has left the tree when its turn comes.\<close>
  "move_loop r f [] = r"
| "move_loop r f (None # cs) = move_loop r f cs"
| "move_loop r f (Some c # cs) =
     (case get_at r c of
        None \<Rightarrow> move_loop r f cs
      | Some n \<Rightarrow>
          if c = [] then move_loop r f cs
          else
            let r1 = remove_at r c;
                f1 = ref_after_remove c f
            in move_loop (case f1 of None \<Rightarrow> r1 | Some fp \<Rightarrow> append_child r1 fp n) f1
                 (map (ref_after_remove c) cs))"

definition children_at :: "node \<Rightarrow> path \<Rightarrow> node list" where
  \<comment> \<open>\<open>ref.children\<close>\<close>
  "children_at r p = (case get_at r p of None \<Rightarrow> [] | Some n \<Rightarrow> children n)"

definition ensure_main :: "node \<Rightarrow> (node \<times> path \<times> (path \<Rightarrow> path)) option" where
  \<comment> \<open>from \<open>main = next(...)\<close> to \<open>body.append(main)\<close>: the tree, the reference \<open>main\<close> and
      where the earlier references point now; \<open>None\<close> at the \<open>return\<close> for a tree without
      \<open>main\<close> and \<open>body\<close>\<close>
  "ensure_main r =
     (case iter_tags r [''main''] of
        m # _ \<Rightarrow> Some (r, m, id)
      | [] \<Rightarrow>
          (case iter_tags r [''body''] of
             [] \<Rightarrow> None
           | b # _ \<Rightarrow> Some (modify_at wrap_in_main r b, b @ [0], under_main b)))"

definition ensure_footer :: "node \<Rightarrow> path \<Rightarrow> node \<times> path" where
  \<comment> \<open>from \<open>footer = next(...)\<close> to \<open>main.append(footer)\<close>: the tree and the reference
      \<open>footer\<close>\<close>
  "ensure_footer r m =
     (case find_index_of (\<lambda>n. tag n = Some ''footer'') (children_at r m) of
        Some i \<Rightarrow> (r, m @ [i])
      | None \<Rightarrow> (append_child r m (element ''footer'' []), m @ [child_count r m]))"

definition footer_setup :: "node \<Rightarrow> (node \<times> path \<times> path list) option" where
  \<comment> \<open>\<open>move_footer_elements\<close> up to its last loop: the tree, the reference \<open>footer\<close> and the
      list \<open>candidates\<close>; \<open>None\<close> when the function has returned before\<close>
  "footer_setup r =
     (let cs = candidates r in
      if cs = [] then None
      else
        let cs = outermost cs in
        case ensure_main r of
          None \<Rightarrow> None
        | Some (r1, m, moved) \<Rightarrow>
            (case ensure_footer r1 m of (r2, f) \<Rightarrow> Some (r2, f, map moved cs)))"

definition move_footer_elements :: "node \<Rightarrow> node" where
  "move_footer_elements r =
     (case footer_setup r of
        None \<Rightarrow> r
      | Some (r2, f, cs) \<Rightarrow> move_loop r2 (Some f) (map Some cs))"

subsection \<open>The sequence of passes\<close>

definition ensure_matching_sections :: "node \<Rightarrow> node" where
  "ensure_matching_sections r = clean_whitespace r False"

definition process_tree :: "node \<Rightarrow> node" where
  \<comment> \<open>the tree after the calls that \<open>process_file\<close> makes between \<open>parse_html\<close> and
      \<open>render_document\<close>, in its order\<close>
  "process_tree r0 =
     (let r1 = remove_redundant_wrappers r0;
          r2 = remove_empty_headings r1;
          r3 = remove_empty_italics r2;
          r4 = add_alt_text r3;
          r5 = normalize_headings r4;
          r6 = move_footer_elements r5;
          r7 = ensure_matching_sections r6
      in r7)"


section \<open>The serializer\<close>

definition html_escape :: "string \<Rightarrow> string" where
  \<comment> \<open>\<open>html.escape(s, quote=True)\<close>\<close>
  "html_escape s = concat (map (\<lambda>c.
       if c = CHR ''&'' then ''&amp;''
       else if c = CHR ''<'' then ''&lt;''
       else if c = CHR ''>'' then ''&gt;''
       else if c = CHR 0x22 then ''&quot;''
       else if c = CHR 0x27 then ''&#x27;''
       else [c]) s)"

definition render_attributes :: "(string \<times> string) list \<Rightarrow> string" where
  "render_attributes a =
     concat (map (\<lambda>(key, v). '' '' @ key @ ''='' @ [CHR 0x22] @ html_escape v @ [CHR 0x22]) a)"

definition indent_str :: "nat \<Rightarrow> string" where
  \<comment> \<open>\<open>"  " * indent\<close>\<close>
  "indent_str k = concat (replicate k ''  '')"

fun join :: "string \<Rightarrow> string list \<Rightarrow> string" where
  \<comment> \<open>\<open>sep.join(xs)\<close>\<close>
  "join sep [] = []"
| "join sep [x] = x"
| "join sep (x # y # ys) = x @ sep @ join sep (y # ys)"

definition str_of :: "string option \<Rightarrow> string" where
  \<comment> \<open>an optional string inside an f-string\<close>
  "str_of x = (case x of None \<Rightarrow> ''None'' | Some s \<Rightarrow> s)"

fun render_node :: "node \<Rightarrow> nat \<Rightarrow> bool \<Rightarrow> string" where
  "render_node (Node t a cs x d c) indent preserve =
     (if d then ''<!'' @ str_of x @ ''>''
      else if c then indent_str indent @ ''<!--'' @ or_empty x @ ''-->''
      else if t = None then
        (if preserve \<or> strip (or_empty x) = [] then or_empty x
         else indent_str indent @ strip (or_empty x))
      else if tag_in t VOID_ELEMENTS then
        indent_str indent @ ''<'' @ str_of t @ render_attributes a @ ''>''
      else
        let preserve_children = (preserve \<or> tag_in t PRESERVE_WHITESPACE_TAGS);
            child_strings =
              filter (\<lambda>rendered. rendered \<noteq> [])
                (map (\<lambda>child. render_node child (indent + 1) preserve_children) cs)
        in if child_strings = [] then
             indent_str indent @ ''<'' @ str_of t @ render_attributes a @ ''></'' @ str_of t @ ''>''
           else if preserve_children then
             indent_str indent @ ''<'' @ str_of t @ render_attributes a @ ''>''
               @ concat child_strings @ ''</'' @ str_of t @ ''>''
           else
             indent_str indent @ ''<'' @ str_of t @ render_attributes a @ ''>'' @ [CHR 0x0A]
               @ join [CHR 0x0A] child_strings @ [CHR 0x0A]
               @ indent_str indent @ ''</'' @ str_of t @ ''>'')"

definition is_linebreak :: "char \<Rightarrow> bool" where
  \<comment> \<open>the line boundaries of \<open>str.splitlines\<close> below 256\<close>
  "is_linebreak c = (c \<in> set [CHR 0x0A, CHR 0x0B, CHR 0x0C, CHR 0x0D, CHR 0x1C, CHR 0x1D,
     CHR 0x1E, CHR 0x85])"

fun splitlines_from :: "string \<Rightarrow> string \<Rightarrow> string list" where
  \<comment> \<open>\<open>acc\<close> is the line read so far, reversed\<close>
  "splitlines_from acc [] = (if acc = [] then [] else [rev acc])"
| "splitlines_from acc [c] = (if is_linebreak c then [rev acc] else [rev (c # acc)])"
| "splitlines_from acc (c # e # s) =
     (if c = CHR 0x0D \<and> e = CHR 0x0A then rev acc # splitlines_from [] s
      else if is_linebreak c then rev acc # splitlines_from [] (e # s)
      else splitlines_from (c # acc) (e # s))"

definition splitlines :: "string \<Rightarrow> string list" where
  "splitlines s = splitlines_from [] s"

definition indent_block :: "string \<Rightarrow> nat \<Rightarrow> string" where
  "indent_block s level =
     join [CHR 0x0A] (map (\<lambda>line. if line \<noteq> [] then indent_str level @ line else []) (splitlines s))"

definition render_document :: "node \<Rightarrow> string" where
  "render_document r =
     (let doctype = find_index_of is_doctype (children r);
          html_node = find (\<lambda>child. tag child = Some ''html'') (children r);
          parts0 = (case doctype of
                      Some i \<Rightarrow> [render_node (children r ! i) 0 False]
                    | None \<Rightarrow> [''<!DOCTYPE html>'']);
          parts =
            (case html_node of
               Some h \<Rightarrow> parts0 @ [render_node h 0 False]
             | None \<Rightarrow>
                 let content_parts =
                       filter (\<lambda>rendered. rendered \<noteq> [])
                         (map (\<lambda>i. render_node (children r ! i) 0 False)
                            (filter (\<lambda>i. doctype \<noteq> Some i) [0..<length (children r)]))
                 in if content_parts \<noteq> [] then
                      parts0 @ [''<html>'', ''  <body>'',
                        indent_block (join [CHR 0x0A] content_parts) 2, ''  </body>'', ''</html>'']
                    else parts0)
      in join [CHR 0x0A] parts @ [CHR 0x0A])"

section \<open>process\_file\<close>

definition process_file :: "(string \<Rightarrow> error + event list) \<Rightarrow> string \<Rightarrow> error + string option" where
  \<comment> \<open>the text written back to the file, \<open>None\<close> when the file is left as it is; an
      exception of either \<open>parse_html\<close> call (the second is in \<open>validate_html\<close>) ends it.
      The recursive passes and \<open>render_node\<close> are total here: the \<open>RecursionError\<close> that
      Python raises on a deeply nested tree has no counterpart\<close>
  "process_file tokens original =
     (case parse_html tokens original of
        Inl e \<Rightarrow> Inl e
      | Inr r \<Rightarrow>
          let output = render_document (process_tree r) in
          if output = original then Inr None
          else (case parse_html tokens output of
                  Inl e \<Rightarrow> Inl e
                | Inr _ \<Rightarrow> Inr (Some output)))"


section \<open>The tokenizer on plain markup\<close>

text \<open>
  \<open>DOMBuilder\<close> inherits its tokenizer from \<open>html.parser.HTMLParser\<close> of the standard
  library, with \<open>convert_charrefs=True\<close>. The theorems about the builder quantify over
  every tokenizer. To run the whole of \<open>process_file\<close> on a concrete text,
  \<open>plain_events\<close> gives the handler calls of \<open>feed\<close> and \<open>close\<close> on \<^emph>\<open>plain markup\<close>:
  a sequence of
  \<^item> start tags \<open><name>\<close> and end tags \<open></name>\<close>, the name being ASCII letters and digits
    after a first letter, with nothing else between the brackets, and not one of the
    elements whose content the tokenizer reads as raw text;
  \<^item> a declaration \<open><!doctype ...>\<close> (in any case), up to the next \<open>>\<close>;
  \<^item> text without \<open><\<close> and \<open>&\<close>, which arrives in one \<open>handle_data\<close> call;
  \<^item> a marked section \<open><![\<close> that \<open>parse_marked_section\<close> of \<open>_markupbase\<close> refuses: what
    follows the bracket is not a name (\<open>_scan_name\<close> raises \<open>AssertionError\<close>), or it is
    a name other than \<open>temp\<close>, \<open>cdata\<close>, \<open>ignore\<close>, \<open>include\<close>, \<open>rcdata\<close>, \<open>if\<close>, \<open>else\<close>, \<open>endif\<close>
    with more text after it (\<open>parse_marked_section\<close> raises \<open>AssertionError\<close>). The
    exception leaves \<open>feed\<close>, whatever was handled before.
  On any other text \<open>plain_events\<close> is \<open>None\<close>: nothing is said about it.
\<close>

definition is_alpha :: "char \<Rightarrow> bool" where
  "is_alpha c = ((65::nat) \<le> of_char c \<and> of_char c \<le> (90::nat)
                  \<or> (97::nat) \<le> of_char c \<and> of_char c \<le> (122::nat))"

definition is_alnum :: "char \<Rightarrow> bool" where
  "is_alnum c = (is_alpha c \<or> (48::nat) \<le> of_char c \<and> of_char c \<le> (57::nat))"

definition RAW_TEXT_TAGS :: "string list" where
  "RAW_TEXT_TAGS = [''script'', ''style'', ''textarea'', ''title'', ''plaintext'', ''xmp'',
     ''iframe'', ''noembed'', ''noframes'', ''noscript'']"

definition is_declname_char :: "char \<Rightarrow> bool" where
  \<comment> \<open>\<open>[-_.a-zA-Z0-9]\<close> of \<open>_declname_match\<close>\<close>
  "is_declname_char c = (is_alnum c \<or> c = CHR ''-'' \<or> c = CHR ''_'' \<or> c = CHR ''.'')"

definition MARKED_SECTION_NAMES :: "string list" where
  "MARKED_SECTION_NAMES =
     [''temp'', ''cdata'', ''ignore'', ''include'', ''rcdata'', ''if'', ''else'', ''endif'']"

definition marked_section :: "string \<Rightarrow> (error + event list) option" where
  \<comment> \<open>\<open>parse_marked_section\<close> on the text after \<open><![\<close>: \<open>_scan_name\<close> matches
      \<open>[a-zA-Z][-_.a-zA-Z0-9]*\s*\<close>; the sections that it accepts, and a name that ends
      the text, are outside plain markup\<close>
  "marked_section s =
     (case s of
        [] \<Rightarrow> None
      | c # _ \<Rightarrow>
          if \<not> is_alpha c then Some (Inl AssertionError)
          else if dropWhile is_space (dropWhile is_declname_char s) = [] then None
          else if map ascii_lower (takeWhile is_declname_char s) \<in> set MARKED_SECTION_NAMES
          then None
          else Some (Inl AssertionError))"

definition emit :: "event \<Rightarrow> (error + event list) option \<Rightarrow> (error + event list) option" where
  \<comment> \<open>a handler call, then the rest of the text\<close>
  "emit e rest = map_option (map_sum id ((#) e)) rest"

function plain_events :: "string \<Rightarrow> (error + event list) option" where
  "plain_events [] = Some (Inr [])"
| "plain_events (c # s) =
     (if c \<noteq> CHR ''<'' then
        (let d = takeWhile (\<lambda>x. x \<noteq> CHR ''<'') (c # s) in
         if CHR ''&'' \<in> set d then None
         else emit (Data d) (plain_events (dropWhile (\<lambda>x. x \<noteq> CHR ''<'') s)))
      else
        (case s of
           [] \<Rightarrow> None
         | e # s' \<Rightarrow>
             if e = CHR ''/'' then
               (case dropWhile is_alnum s' of
                  g # s'' \<Rightarrow>
                    if g = CHR ''>'' \<and> takeWhile is_alnum s' \<noteq> [] \<and> is_alpha (hd s')
                    then emit (EndTag (map ascii_lower (takeWhile is_alnum s'))) (plain_events s'')
                    else None
                | [] \<Rightarrow> None)
             else if e = CHR ''!'' then
               (if take 1 s' = ''['' then marked_section (drop 1 s')
                else if map ascii_lower (take 7 s') = ''doctype'' \<and> CHR ''>'' \<in> set s'
                then emit (Decl (takeWhile (\<lambda>x. x \<noteq> CHR ''>'') s'))
                       (plain_events (drop 1 (dropWhile (\<lambda>x. x \<noteq> CHR ''>'') s')))
                else None)
             else if is_alpha e then
               (case dropWhile is_alnum s of
                  g # s'' \<Rightarrow>
                    if g = CHR ''>'' \<and> map ascii_lower (takeWhile is_alnum s) \<notin> set RAW_TEXT_TAGS
                    then emit (StartTag (map ascii_lower (takeWhile is_alnum s)) []) (plain_events s'')
                    else None
                | [] \<Rightarrow> None)
             else None))"
  by pat_completeness auto
termination
proof (relation "measure length")
  show "wf (measure length)" by simp
next
  fix c :: char and s :: string
  have "length (dropWhile (\<lambda>x. x \<noteq> CHR ''<'') s) \<le> length s" by (rule length_dropWhile_le)
  then show "(dropWhile (\<lambda>x. x \<noteq> CHR ''<'') s, c # s) \<in> measure length" by simp
next
  fix c e g :: char and s s' s'' :: string
  assume "s = e # s'" and "dropWhile is_alnum s' = g # s''"
  moreover have "length (dropWhile is_alnum s') \<le> length s'" by (rule length_dropWhile_le)
  ultimately show "(s'', c # s) \<in> measure length" by simp
next
  fix c e :: char and s s' :: string
  assume "s = e # s'"
  moreover have "length (dropWhile (\<lambda>x. x \<noteq> CHR ''>'') s') \<le> length s'"
    by (rule length_dropWhile_le)
  ultimately show "(drop 1 (dropWhile (\<lambda>x. x \<noteq> CHR ''>'') s'), c # s) \<in> measure length"
    by simp
next
  fix c e g :: char and s s' s'' :: string
  assume "dropWhile is_alnum s = g # s''"
  moreover have "length (dropWhile is_alnum s) \<le> length s" by (rule length_dropWhile_le)
  ultimately show "(s'', c # s) \<in> measure length" by simp
qed

definition plain_parse :: "string \<Rightarrow> (error + node) option" where
  \<comment> \<open>\<open>parse_html\<close> on plain markup\<close>
  "plain_parse content =
     (case plain_events content of
        None \<Rightarrow> None
      | Some t \<Rightarrow> Some (parse_html (\<lambda>s. t) content))"

definition plain_process :: "string \<Rightarrow> string option" where
  \<comment> \<open>the \<open>output\<close> of \<open>process_file\<close> on plain markup, when \<open>parse_html\<close> returns\<close>
  "plain_process original =
     (case plain_parse original of
        Some (Inr r) \<Rightarrow> Some (render_document (process_tree r))
      | _ \<Rightarrow> None)"


section \<open>Invariants\<close>

fun void_ok :: "node \<Rightarrow> bool" where
  \<comment> \<open>no element with a tag of \<open>VOID_ELEMENTS\<close> has children, anywhere in the tree\<close>
  "void_ok (Node t a cs x d c) =
     ((tag_in t VOID_ELEMENTS \<longrightarrow> cs = []) \<and> (\<forall>ch \<in> set cs. void_ok ch))"

definition builder_ok :: "builder \<Rightarrow> bool" where
  \<comment> \<open>the tree is \<open>void_ok\<close> and every open element exists and is not a void element\<close>
  "builder_ok b = (void_ok (root b)
     \<and> (\<forall>p \<in> set (stack b). \<not> tag_in (tag_at (root b) p) VOID_ELEMENTS
           \<and> get_at (root b) p \<noteq> None))"


fun node_paths :: "node \<Rightarrow> path list"
  and node_paths_from :: "nat \<Rightarrow> node list \<Rightarrow> path list" where
  \<comment> \<open>the references to all nodes of a tree, the root first\<close>
  "node_paths (Node t a cs x d c) = [] # node_paths_from 0 cs"
| "node_paths_from i [] = []"
| "node_paths_from i (ch # cs) = map ((#) i) (node_paths ch) @ node_paths_from (Suc i) cs"


section \<open>Example documents and auxiliary notions\<close>

definition open_b_i :: builder where
  "open_b_i = \<lparr>root = Node (Some ''root'') []
       [Node (Some ''b'') [] [Node (Some ''i'') [] [text_node ''text''] None False False] None False False]
       None False False,
     stack = [[], [0], [0, 0]]\<rparr>"

definition nested_divs :: node where
  \<comment> \<open>the tree of \<open><div><div><p>Hi</p></div></div>\<close>\<close>
  "nested_divs = Node (Some ''root'') []
     [Node (Some ''div'') []
        [Node (Some ''div'') []
           [Node (Some ''p'') [] [text_node ''Hi''] None False False]
           None False False]
        None False False]
     None False False"

definition one_div :: node where
  "one_div = Node (Some ''root'') []
     [Node (Some ''div'') []
        [Node (Some ''p'') [] [text_node ''Hi''] None False False]
        None False False]
     None False False"

definition stray_doc :: node where
  \<comment> \<open>the tree of \<open><p>Creative Commons</p>\<close>\<close>
  "stray_doc = Node (Some ''root'') []
     [Node (Some ''p'') [] [text_node ''Creative Commons''] None False False]
     None False False"

definition spec_order_tree :: "node \<Rightarrow> node" where
  \<comment> \<open>the order that the specification lists, with whitespace normalization first\<close>
  "spec_order_tree r0 =
     move_footer_elements (normalize_headings (add_alt_text (remove_empty_italics
       (remove_empty_headings (remove_redundant_wrappers (ensure_matching_sections r0))))))"

definition tab_doc :: node where
  \<comment> \<open>the tree of \<open><body><p>creative\<rightarrow>commons</p></body>\<close>, the two words separated by a tab\<close>
  "tab_doc = Node (Some ''root'') []
     [Node (Some ''body'') []
        [Node (Some ''p'') [] [text_node (''creative'' @ [CHR 0x09] @ ''commons'')] None False False]
        None False False]
     None False False"

definition commons_page :: string where
  "commons_page = ''<html><body><p>Creative Commons</p></body></html>''"

definition commons_events :: "event list" where
  "commons_events = [StartTag ''html'' [], StartTag ''body'' [], StartTag ''p'' [],
     Data ''Creative Commons'', EndTag ''p'', EndTag ''body'', EndTag ''html'']"

definition unknown_section :: string where
  "unknown_section = ''<![foo bar]>''"

definition first_run :: string where
  "first_run = ''<!DOCTYPE html>'' @ [CHR 0x0A] @ ''<html>'' @ [CHR 0x0A] @ ''  <body>'' @ [CHR 0x0A]
     @ ''    <main>'' @ [CHR 0x0A] @ ''      <footer>'' @ [CHR 0x0A] @ ''        <p>'' @ [CHR 0x0A]
     @ ''          Creative Commons'' @ [CHR 0x0A] @ ''        </p>'' @ [CHR 0x0A]
     @ ''      </footer>'' @ [CHR 0x0A] @ ''    </main>'' @ [CHR 0x0A] @ ''  </body>'' @ [CHR 0x0A]
     @ ''</html>'' @ [CHR 0x0A]"

definition second_run :: string where
  "second_run = ''<!DOCTYPE html>'' @ [CHR 0x0A] @ ''<html>'' @ [CHR 0x0A] @ ''  <body>'' @ [CHR 0x0A]
     @ ''    <main></main>'' @ [CHR 0x0A] @ ''  </body>'' @ [CHR 0x0A] @ ''</html>'' @ [CHR 0x0A]"

definition img_events :: "event list" where
  "img_events = [StartTag ''body'' [], StartTag ''img'' [(''src'', Some ''a.png'')], Data ''x'',
     EndTag ''img'', EndTag ''body'']"

definition img_doc :: node where
  "img_doc = Node (Some ''root'') []
     [Node (Some ''body'') []
        [Node (Some ''img'') [(''src'', ''a.png'')] [] None False False, text_node ''x'']
        None False False]
     None False False"

fun spec_text_content :: "node \<Rightarrow> string" where
  \<comment> \<open>\<open>textContent\<close> as the specification defines it: the contents of the descendant
      Text nodes in document order, comments and doctypes contributing nothing\<close>
  "spec_text_content (Node t a cs x d c) =
     (if c \<or> d then []
      else if t = None then or_empty x
      else concat (map spec_text_content cs))"

definition spec_text_at :: "node \<Rightarrow> path \<Rightarrow> string" where
  "spec_text_at r p = (case get_at r p of None \<Rightarrow> [] | Some n \<Rightarrow> spec_text_content n)"

definition spec_own_text :: "node \<Rightarrow> bool" where
  \<comment> \<open>the element has non-whitespace text of its own: a child that is a Text node (no
      tag, neither comment nor doctype) with a non-blank content\<close>
  "spec_own_text dv =
     (filter (\<lambda>c. tag c = None \<and> \<not> is_comment c \<and> \<not> is_doctype c
                   \<and> strip (or_empty (node_text c)) \<noteq> []) (children dv) \<noteq> [])"

definition spec_is_wrapper :: "node \<Rightarrow> bool" where
  \<comment> \<open>the wrapper of the specification: a \<open>div\<close> with no attributes and exactly one
      meaningful child, which is a \<open>section\<close> or \<open>main\<close> while the \<open>div\<close> has no
      non-whitespace text of its own, or is another \<open>div\<close> without attributes\<close>
  "spec_is_wrapper dv =
     (tag dv = Some ''div'' \<and> attrs dv = [] \<and>
      (case meaningful_children dv of
         [child] \<Rightarrow>
           (tag_in (tag child) [''section'', ''main''] \<and> \<not> spec_own_text dv)
           \<or> (tag child = Some ''div'' \<and> attrs child = [])
       | _ \<Rightarrow> False))"

definition comment_wrapper :: node where
  \<comment> \<open>the tree of \<open><div><!--c--><section>s</section></div>\<close>\<close>
  "comment_wrapper = Node (Some ''root'') []
     [Node (Some ''div'') []
        [comment_node ''c'',
         Node (Some ''section'') [] [text_node ''s''] None False False]
        None False False]
     None False False"

definition comment_div_wrapper :: node where
  \<comment> \<open>the tree of \<open><div><!--c--><div>s</div></div>\<close>\<close>
  "comment_div_wrapper = Node (Some ''root'') []
     [Node (Some ''div'') []
        [comment_node ''c'',
         Node (Some ''div'') [] [text_node ''s''] None False False]
        None False False]
     None False False"

definition comment_div_unwrapped :: node where
  \<comment> \<open>the tree of \<open><!--c--><div>s</div>\<close>\<close>
  "comment_div_unwrapped = Node (Some ''root'') []
     [comment_node ''c'',
      Node (Some ''div'') [] [text_node ''s''] None False False]
     None False False"

definition comment_heading :: node where
  \<comment> \<open>the tree of \<open><h3><!--c--></h3><h1>T</h1>\<close>\<close>
  "comment_heading = Node (Some ''root'') []
     [Node (Some ''h3'') [] [comment_node ''c''] None False False,
      Node (Some ''h1'') [] [text_node ''T''] None False False]
     None False False"

definition later_tag :: "string option \<Rightarrow> string option" where
  \<comment> \<open>the tag that the loop over \<open>headings[1:]\<close> leaves on a heading\<close>
  "later_tag t = (if t = Some ''h1'' then Some ''h2''
                  else if tag_in t [''h4'', ''h5'', ''h6''] then Some ''h3'' else t)"

definition three_headings :: node where
  "three_headings = Node (Some ''root'') []
     [Node (Some ''h2'') [] [text_node ''Title''] None False False,
      Node (Some ''p'') [] [text_node ''x''] None False False,
      Node (Some ''h1'') [] [text_node ''Again''] None False False,
      Node (Some ''h5'') [] [text_node ''Sub''] None False False,
      Node (Some ''h4'') [] [text_node '' ''] None False False]
     None False False"













section \<open>Verification\<close>

subsection \<open>Paths and mutations\<close>

lemma set_children_sel [simp]:
  "tag (set_children n cs) = tag n" "attrs (set_children n cs) = attrs n"
  "children (set_children n cs) = cs" "node_text (set_children n cs) = node_text n"
  "is_doctype (set_children n cs) = is_doctype n" "is_comment (set_children n cs) = is_comment n"
  by (simp_all add: set_children_def)

lemma set_tag_sel [simp]:
  "tag (set_tag t n) = Some t" "attrs (set_tag t n) = attrs n"
  "children (set_tag t n) = children n" "node_text (set_tag t n) = node_text n"
  "is_doctype (set_tag t n) = is_doctype n" "is_comment (set_tag t n) = is_comment n"
  by (simp_all add: set_tag_def)

lemma set_children_same [simp]: "set_children n (children n) = n"
  by (cases n) (simp add: set_children_def)

lemma get_at_modify_at_below:
  "get_at (modify_at f r p) (p @ q) = (case get_at r p of None \<Rightarrow> None | Some n \<Rightarrow> get_at (f n) q)"
  by (induction p arbitrary: r) auto

lemma get_at_modify_at_self:
  "get_at (modify_at f r p) p = map_option f (get_at r p)"
  using get_at_modify_at_below[of f r p "[]"] by (simp split: option.splits)

lemma get_at_modify_at_above:
  "get_at (modify_at f r (q @ p)) q = map_option (\<lambda>m. modify_at f m p) (get_at r q)"
  by (induction q arbitrary: r) auto

lemma get_at_modify_at_other:
  "\<not> prefix p q \<Longrightarrow> \<not> prefix q p \<Longrightarrow> get_at (modify_at f r p) q = get_at r q"
proof (induction p arbitrary: r q)
  case Nil
  then show ?case by simp
next
  case (Cons i p)
  then obtain j q' where q: "q = j # q'" by (cases q) auto
  show ?case
  proof (cases "i = j")
    case True
    with Cons.prems q have "\<not> prefix p q'" "\<not> prefix q' p" by auto
    from Cons.IH[OF this] True q show ?thesis by simp
  next
    case False
    then show ?thesis using q by simp
  qed
qed

lemma tag_modify_at_nonempty: "p \<noteq> [] \<Longrightarrow> tag (modify_at f r p) = tag r"
  by (cases p) auto


lemma remove_at_single:
  "remove_at r [k] = set_children r (take k (children r) @ drop (Suc k) (children r))"
  by (simp add: remove_at_def)

lemma remove_at_Cons:
  "c \<noteq> [] \<Longrightarrow> remove_at r (k # c) =
     (if k < length (children r)
      then set_children r ((children r)[k := remove_at (children r ! k) c])
      else r)"
  by (simp add: remove_at_def)

lemma after_remove_get_at:
  "c \<noteq> [] \<Longrightarrow> get_at r c = Some n \<Longrightarrow> after_remove c q = Some q' \<Longrightarrow>
     get_at (remove_at r c) q' =
       (if prefix q c then map_option (\<lambda>m. remove_at m (drop (length q) c)) (get_at r q)
        else get_at r q)"
proof (induction c q arbitrary: r q' rule: after_remove.induct)
  case (1 q)
  then show ?case by simp
next
  case (2 k c)
  then show ?case by simp
next
  case (3 k j q)
  from "3.prems"(2) have k: "k < length (children r)" by (auto split: if_splits)
  show ?case
  proof (cases "k < j")
    case True
    with "3.prems"(3) have q': "q' = (j - 1) # q" by simp
    have "(take k (children r) @ drop (Suc k) (children r)) ! (j - 1) = children r ! j"
      if "j < length (children r)"
    proof -
      have "length (take k (children r)) = k" using k by simp
      moreover have "\<not> j - 1 < k" using True by arith
      ultimately have "(take k (children r) @ drop (Suc k) (children r)) ! (j - 1)
          = drop (Suc k) (children r) ! (j - 1 - k)"
        by (simp add: nth_append)
      also have "\<dots> = children r ! (Suc k + (j - 1 - k))"
        using that True by (intro nth_drop) arith
      also have "Suc k + (j - 1 - k) = j" using True by arith
      finally show ?thesis .
    qed
    with True k q' show ?thesis
      by (auto simp: remove_at_single)
  next
    case False
    with "3.prems"(3) have jk: "j < k" and q': "q' = j # q" by (auto split: if_splits)
    with k show ?thesis by (auto simp: remove_at_single nth_append)
  qed
next
  case (4 k v va j q)
  let ?c = "v # va"
  from "4.prems"(2) have k: "k < length (children r)"
    and g: "get_at (children r ! k) ?c = Some n" by (auto split: if_splits)
  show ?case
  proof (cases "j = k")
    case True
    with "4.prems"(3) obtain q0 where q0: "after_remove ?c q = Some q0" and q': "q' = j # q0"
      by auto
    from "4.IH"[OF True _ g q0]
    have "get_at (remove_at (children r ! k) ?c) q0 =
       (if prefix q ?c then map_option (\<lambda>m. remove_at m (drop (length q) ?c)) (get_at (children r ! k) q)
        else get_at (children r ! k) q)" by simp
    with True k q' show ?thesis by (simp add: remove_at_Cons)
  next
    case False
    with "4.prems"(3) have "q' = j # q" by simp
    with False k show ?thesis by (simp add: remove_at_Cons)
  qed
qed

lemma tag_remove_at: "tag (remove_at r c) = tag r"
  by (cases "butlast c") (auto simp: remove_at_def)

lemma iter_tags_tag_aux:
  "q \<in> set (iter_tags n names) \<longrightarrow> filter (\<lambda>x. x \<noteq> []) names \<noteq> []
     \<longrightarrow> tag_in (tag_at n q) names"
  "q \<in> set (iter_tags_from i cs names) \<longrightarrow> filter (\<lambda>x. x \<noteq> []) names \<noteq> []
     \<longrightarrow> (\<exists>j q'. q = (i + j) # q' \<and> j < length cs \<and> tag_in (tag_at (cs ! j) q') names)"
proof (induction n names and i cs names arbitrary: q and q rule: iter_tags_iter_tags_from.induct)
  case (1 t a cs x d c names)
  then show ?case by (fastforce simp: tag_at_def)
next
  case (2 i names)
  then show ?case by simp
next
  case (3 i c cs names)
  show ?case
  proof (intro impI)
    assume q: "q \<in> set (iter_tags_from i (c # cs) names)"
      and ne: "filter (\<lambda>x. x \<noteq> []) names \<noteq> []"
    from q ne consider (here) "q = [i]" "tag_in (tag c) (filter (\<lambda>x. x \<noteq> []) names)"
      | (below) q' where "q = i # q'" "q' \<in> set (iter_tags c names)" "truthy (tag c)"
      | (later) "q \<in> set (iter_tags_from (Suc i) cs names)"
      by (auto split: if_splits)
    then show "\<exists>j q'. q = (i + j) # q' \<and> j < length (c # cs) \<and> tag_in (tag_at ((c # cs) ! j) q') names"
    proof cases
      case here
      then have "tag_in (tag_at c []) names" by (auto simp: tag_at_def tag_in_def split: option.splits)
      with here show ?thesis by (intro exI[of _ 0] exI[of _ "[]"]) simp
    next
      case below
      with 3 ne have "tag_in (tag_at c q') names" by blast
      with below show ?thesis by (intro exI[of _ 0] exI[of _ q']) simp
    next
      case later
      with 3 ne obtain j q' where "q = (Suc i + j) # q'" "j < length cs"
        "tag_in (tag_at (cs ! j) q') names" by blast
      then show ?thesis by (intro exI[of _ "Suc j"] exI[of _ q']) simp
    qed
  qed
qed

lemma iter_tags_single_tag:
  "q \<in> set (iter_tags r [x]) \<Longrightarrow> x \<noteq> [] \<Longrightarrow> tag_at r q = Some x"
  using iter_tags_tag_aux(1)[of q r "[x]"] by (auto simp: tag_in_def split: option.splits)

lemma find_index_of_Some:
  "find_index_of P xs = Some i \<Longrightarrow> i < length xs \<and> P (xs ! i)"
proof -
  assume a: "find_index_of P xs = Some i"
  then have ex: "\<exists>x \<in> set xs. P x" and i: "i = length (takeWhile (\<lambda>x. \<not> P x) xs)"
    by (auto simp: find_index_of_def split: if_splits)
  from ex have "takeWhile (\<lambda>x. \<not> P x) xs \<noteq> xs" by (simp add: takeWhile_eq_all_conv)
  then have "length (takeWhile (\<lambda>x. \<not> P x) xs) \<noteq> length xs"
    by (metis takeWhile_eq_take take_all_iff order_refl)
  with length_takeWhile_le[of "\<lambda>x. \<not> P x" xs] have lt: "i < length xs" unfolding i by arith
  with nth_length_takeWhile[of "\<lambda>x. \<not> P x" xs] show ?thesis unfolding i by simp
qed

subsection \<open>get\_text on comments and doctypes\<close>

text \<open>
  Claim C1: \<open>get_text\<close> of a comment node and of a doctype node is the empty string, and
  the text of any node is the concatenation of its descendant text nodes only.

  The code tests \<open>node.tag is None\<close> before \<open>node.is_comment or node.is_doctype\<close>, and the
  builder gives comments and doctypes no tag: they return their own text, and the text
  of an element includes the bodies of the comments inside it.
\<close>

theorem get_text_comment_body:
  "get_text (comment_node ''x'') = ''x''
   \<and> get_text (doctype_node ''DOCTYPE html'') = ''DOCTYPE html''
   \<and> (case feed new_builder [StartTag ''p'' [], Data ''a'', Comment ''x'', Data ''b'', EndTag ''p''] of
         Inr b \<Rightarrow> map_option get_text (get_at (root b) [0]) = Some ''axb''
       | Inl e \<Rightarrow> False)"
  by (simp add: comment_node_def doctype_node_def or_empty_def new_builder_def
      handle_starttag_def handle_data_def handle_comment_def handle_endtag_def append_top_def
      append_child_def child_count_def element_def text_node_def set_children_def
      VOID_ELEMENTS_def tag_at_def Let_def attrs_dict_def)

subsection \<open>End tags\<close>

lemma endtag_scan_none:
  "\<forall>k. 0 < k \<and> k \<le> i \<longrightarrow> tag_at r (st ! k) \<noteq> Some t \<Longrightarrow> endtag_scan r st t i = st"
  by (induction i) auto

lemma endtag_scan_found:
  "0 < k \<Longrightarrow> k \<le> i \<Longrightarrow> tag_at r (st ! k) = Some t
   \<Longrightarrow> \<forall>j. k < j \<and> j \<le> i \<longrightarrow> tag_at r (st ! j) \<noteq> Some t
   \<Longrightarrow> endtag_scan r st t i = take k st"
proof (induction i)
  case 0
  then show ?case by simp
next
  case (Suc i)
  show ?case
  proof (cases "k = Suc i")
    case True
    with Suc.prems show ?thesis by simp
  next
    case False
    with Suc.prems have "k \<le> i" "tag_at r (st ! Suc i) \<noteq> Some t" by auto
    with Suc show ?thesis by auto
  qed
qed

lemma open_b_i_fed:
  "feed new_builder [StartTag ''b'' [], StartTag ''i'' [], Data ''text''] = Inr open_b_i"
  by (simp add: open_b_i_def new_builder_def handle_starttag_def handle_data_def append_top_def
      append_child_def child_count_def element_def text_node_def set_children_def
      VOID_ELEMENTS_def attrs_dict_def Let_def)

text \<open>
  Claim C5: on an end tag, when some element of the stack above the root has the tag,
  the stack is cut down to below the nearest such element (index \<open>k\<close>, with no match
  above it), which closes every element above it too; when none has the tag, the stack
  stays as it is. The tree is not touched.
\<close>

theorem handle_endtag_pops:
  "root (handle_endtag b t) = root b
   \<and> (\<forall>k. 0 < k \<and> k < length (stack b) \<and> tag_at (root b) (stack b ! k) = Some t
          \<and> (\<forall>j. k < j \<and> j < length (stack b) \<longrightarrow> tag_at (root b) (stack b ! j) \<noteq> Some t)
        \<longrightarrow> stack (handle_endtag b t) = take k (stack b))
   \<and> ((\<forall>k. 0 < k \<and> k < length (stack b) \<longrightarrow> tag_at (root b) (stack b ! k) \<noteq> Some t)
        \<longrightarrow> stack (handle_endtag b t) = stack b)"
proof (intro conjI allI impI)
  show "root (handle_endtag b t) = root b" by (simp add: handle_endtag_def)
next
  fix k
  assume a: "0 < k \<and> k < length (stack b) \<and> tag_at (root b) (stack b ! k) = Some t
          \<and> (\<forall>j. k < j \<and> j < length (stack b) \<longrightarrow> tag_at (root b) (stack b ! j) \<noteq> Some t)"
  then have "endtag_scan (root b) (stack b) t (length (stack b) - 1) = take k (stack b)"
    by (intro endtag_scan_found) auto
  then show "stack (handle_endtag b t) = take k (stack b)" by (simp add: handle_endtag_def)
next
  assume "\<forall>k. 0 < k \<and> k < length (stack b) \<longrightarrow> tag_at (root b) (stack b ! k) \<noteq> Some t"
  then have "endtag_scan (root b) (stack b) t (length (stack b) - 1) = stack b"
    by (intro endtag_scan_none) auto
  then show "stack (handle_endtag b t) = stack b" by (simp add: handle_endtag_def)
qed

theorem handle_endtag_pops_witness:
  "stack (handle_endtag open_b_i ''b'') = [[]]
   \<and> stack (handle_endtag open_b_i ''p'') = stack open_b_i"
proof -
  have 1: "0 < (1::nat) \<and> 1 < length (stack open_b_i)
        \<and> tag_at (root open_b_i) (stack open_b_i ! 1) = Some ''b''
        \<and> (\<forall>j. 1 < j \<and> j < length (stack open_b_i)
              \<longrightarrow> tag_at (root open_b_i) (stack open_b_i ! j) \<noteq> Some ''b'')"
    by (auto simp: open_b_i_def tag_at_def less_Suc_eq numeral_3_eq_3)
  have 2: "\<forall>k. 0 < k \<and> k < length (stack open_b_i)
        \<longrightarrow> tag_at (root open_b_i) (stack open_b_i ! k) \<noteq> Some ''p''"
    by (auto simp: open_b_i_def tag_at_def less_Suc_eq numeral_3_eq_3)
  from handle_endtag_pops[of open_b_i "''b''"] 1
  have "stack (handle_endtag open_b_i ''b'') = take 1 (stack open_b_i)" by blast
  moreover from handle_endtag_pops[of open_b_i "''p''"] 2
  have "stack (handle_endtag open_b_i ''p'') = stack open_b_i" by blast
  ultimately show ?thesis by (simp add: open_b_i_def)
qed

subsection \<open>The builder never fails\<close>

lemma endtag_scan_nonempty: "st \<noteq> [] \<Longrightarrow> endtag_scan r st t i \<noteq> []"
  by (induction i) auto

lemma append_top_ok: "stack b \<noteq> [] \<Longrightarrow> \<exists>b'. append_top b n push = Inr b' \<and> stack b' \<noteq> []"
  by (simp add: append_top_def Let_def)

lemma handle_ok: "stack b \<noteq> [] \<Longrightarrow> \<exists>b'. handle b e = Inr b' \<and> stack b' \<noteq> []"
  by (cases e)
    (auto simp: handle_starttag_def handle_startendtag_def handle_data_def handle_comment_def
      handle_decl_def handle_endtag_def append_top_ok endtag_scan_nonempty)

lemma feed_ok: "stack b \<noteq> [] \<Longrightarrow> \<exists>b'. feed b es = Inr b' \<and> stack b' \<noteq> []"
proof (induction es arbitrary: b)
  case Nil
  then show ?case by simp
next
  case (Cons e es)
  from handle_ok[OF Cons.prems] obtain b1 where "handle b e = Inr b1" "stack b1 \<noteq> []" by blast
  with Cons.IH[of b1] show ?case by simp
qed

lemma parse_html_ok: "tokens content = Inr evs \<Longrightarrow> \<exists>r. parse_html tokens content = Inr r"
proof -
  assume t: "tokens content = Inr evs"
  have "stack new_builder \<noteq> []" by (simp add: new_builder_def)
  from feed_ok[OF this] obtain b where "feed new_builder evs = Inr b" by blast
  with t show ?thesis by (simp add: parse_html_def)
qed

text \<open>
  Claim C7 says that \<open>parse_html\<close> returns a root for every input string and that no
  operation raises. \<open>parse_html\<close> calls \<open>parser.feed\<close> of the standard library and
  catches nothing: on the text \<open><![foo bar]>\<close> the tokenizer's \<open>parse_marked_section\<close>
  raises \<open>AssertionError\<close> (an unknown keyword in a marked section), and \<open>parse_html\<close>
  ends with that exception and without a tree.
\<close>

theorem unknown_marked_section_raises:
  "plain_parse unknown_section = Some (Inl AssertionError)"
  by code_simp

text \<open>
  Claim C7, amended: whenever the tokenizer returns, \<open>parse_html\<close> returns a root, for
  every sequence of handler calls: the one raising operation of the builder,
  \<open>self.stack[-1]\<close>, never meets an empty stack. When the tokenizer raises, \<open>parse_html\<close>
  raises the same exception. (Nothing is stated of the passes and the serializer:
  they recurse over the tree, and Python's recursion limit has no counterpart here.)
\<close>

theorem parse_html_total:
  "(\<exists>b. feed new_builder evs = Inr b \<and> stack b \<noteq> [])
   \<and> (tokens content = Inr evs \<longrightarrow> (\<exists>r. parse_html tokens content = Inr r))
   \<and> (tokens content = Inl e \<longrightarrow> parse_html tokens content = Inl e)"
proof (intro conjI impI)
  have "stack new_builder \<noteq> []" by (simp add: new_builder_def)
  from feed_ok[OF this] show "\<exists>b. feed new_builder evs = Inr b \<and> stack b \<noteq> []" .
next
  assume "tokens content = Inr evs"
  then show "\<exists>r. parse_html tokens content = Inr r" by (rule parse_html_ok)
next
  assume "tokens content = Inl e"
  then show "parse_html tokens content = Inl e" by (simp add: parse_html_def)
qed

theorem parse_html_total_witness:
  "plain_events commons_page = Some (Inr commons_events)
   \<and> (\<exists>b. feed new_builder commons_events = Inr b \<and> stack b \<noteq> [])
   \<and> (\<exists>r. parse_html (\<lambda>s. Inr commons_events) commons_page = Inr r)
   \<and> plain_events unknown_section = Some (Inl AssertionError)
   \<and> parse_html (\<lambda>s. Inl AssertionError) unknown_section = Inl AssertionError"
proof -
  have 1: "plain_events commons_page = Some (Inr commons_events)" by code_simp
  have 2: "plain_events unknown_section = Some (Inl AssertionError)" by code_simp
  from parse_html_total[of commons_events "\<lambda>s. Inr commons_events" commons_page]
  have 3: "(\<exists>b. feed new_builder commons_events = Inr b \<and> stack b \<noteq> [])
    \<and> (\<exists>r. parse_html (\<lambda>s. Inr commons_events) commons_page = Inr r)" by simp
  from parse_html_total[of "[]" "\<lambda>s. Inl AssertionError" unknown_section AssertionError]
  have 4: "parse_html (\<lambda>s. Inl AssertionError) unknown_section = Inl AssertionError" by simp
  from 1 2 3 4 show ?thesis by simp
qed

subsection \<open>The wrapper pass reaches a fixpoint\<close>

lemma find_wrapper_fixpoint: "find_wrapper (remove_redundant_wrappers r) = None"
proof (induction r rule: remove_redundant_wrappers.induct)
  case (1 r)
  show ?case
  proof (cases "find_wrapper r")
    case None
    then show ?thesis by (simp add: remove_redundant_wrappers.simps[of r])
  next
    case (Some p)
    with 1 show ?thesis by (simp add: remove_redundant_wrappers.simps[of r])
  qed
qed

text \<open>
  The loop ends only after a scan in which no \<open>div\<close> passes its test: run on a tree
  that it has already processed, \<open>remove_redundant_wrappers\<close> changes nothing, and no
  \<open>div\<close> of the processed tree passes the test of the loop.
\<close>

lemma remove_redundant_wrappers_fixpoint:
  "remove_redundant_wrappers (remove_redundant_wrappers r) = remove_redundant_wrappers r
   \<and> (\<forall>p \<in> set (iter_tags (remove_redundant_wrappers r) [''div'']).
         \<not> is_wrapper_at (remove_redundant_wrappers r) p)"
proof
  have n: "find_wrapper (remove_redundant_wrappers r) = None" by (rule find_wrapper_fixpoint)
  then show "remove_redundant_wrappers (remove_redundant_wrappers r) = remove_redundant_wrappers r"
    by (subst remove_redundant_wrappers.simps) simp
  from n show "\<forall>p \<in> set (iter_tags (remove_redundant_wrappers r) [''div'']).
         \<not> is_wrapper_at (remove_redundant_wrappers r) p"
    by (simp add: find_wrapper_def find_None_iff)
qed

lemma remove_redundant_wrappers_nested_divs:
  "remove_redundant_wrappers nested_divs = one_div
   \<and> remove_redundant_wrappers one_div = one_div
   \<and> iter_tags one_div [''div''] = [[0]]
   \<and> \<not> is_wrapper_at one_div [0]"
proof -
  have 1: "remove_redundant_wrappers nested_divs = one_div" by code_simp
  have 2: "iter_tags one_div [''div''] = [[0]]" by code_simp
  from remove_redundant_wrappers_fixpoint[of nested_divs]
  have "remove_redundant_wrappers one_div = one_div"
    and "\<forall>p \<in> set (iter_tags one_div [''div'']). \<not> is_wrapper_at one_div p"
    unfolding 1 by blast+
  with 1 2 show ?thesis by simp
qed

text \<open>
  Claim C9: a second run of \<open>remove_redundant_wrappers\<close> changes nothing, and no \<open>div\<close>
  without attributes remains whose one meaningful child is a \<open>section\<close> or \<open>main\<close> while
  the \<open>div\<close> has no non-whitespace text of its own, or is another \<open>div\<close> without
  attributes.

  The loop tests the text of the \<open>div\<close> with \<open>c.tag is None and (c.text or "").strip()\<close>,
  which holds of a comment as well, since the builder gives comments no tag. The \<open>div\<close> of
  \<open><div><!--c--><section>s</section></div>\<close> has no attributes, no text node, and the
  \<open>section\<close> for its one meaningful child, and it remains. The other branch of the same
  loop does not look at comments: the outer \<open>div\<close> of \<open><div><!--c--><div>s</div></div>\<close>
  is unwrapped.
\<close>

theorem comment_wrapper_remains:
  "remove_redundant_wrappers comment_wrapper = comment_wrapper
   \<and> map_option spec_is_wrapper (get_at comment_wrapper [0]) = Some True
   \<and> map_option is_wrapper (get_at comment_wrapper [0]) = Some False
   \<and> map_option (map tag \<circ> meaningful_children) (get_at comment_wrapper [0])
       = Some [Some ''section'']
   \<and> map_option spec_own_text (get_at comment_wrapper [0]) = Some False
   \<and> remove_redundant_wrappers comment_div_wrapper = comment_div_unwrapped"
proof -
  have 1: "remove_redundant_wrappers comment_wrapper = comment_wrapper" by code_simp
  have 2: "map_option spec_is_wrapper (get_at comment_wrapper [0]) = Some True" by code_simp
  have 3: "map_option is_wrapper (get_at comment_wrapper [0]) = Some False" by code_simp
  have 4: "map_option (map tag \<circ> meaningful_children) (get_at comment_wrapper [0])
    = Some [Some ''section'']" by code_simp
  have 5: "map_option spec_own_text (get_at comment_wrapper [0]) = Some False" by code_simp
  have 6: "remove_redundant_wrappers comment_div_wrapper = comment_div_unwrapped" by code_simp
  from 1 2 3 4 5 6 show ?thesis by simp
qed

subsection \<open>Footer relocation without a main or body element\<close>

text \<open>
  Claim C10: when the tree has no \<open>main\<close> and no \<open>body\<close> element,
  \<open>move_footer_elements\<close> returns it as it is, also when there are candidates.
\<close>

theorem move_footer_elements_no_target:
  "iter_tags r [''main''] = [] \<Longrightarrow> iter_tags r [''body''] = [] \<Longrightarrow> move_footer_elements r = r"
  by (simp add: move_footer_elements_def footer_setup_def ensure_main_def Let_def)

theorem move_footer_elements_no_target_witness:
  "candidates stray_doc = [[0]] \<and> move_footer_elements stray_doc = stray_doc"
proof -
  have 1: "iter_tags stray_doc [''main''] = []" by code_simp
  have 2: "iter_tags stray_doc [''body''] = []" by code_simp
  have 3: "candidates stray_doc = [[0]]" by code_simp
  from move_footer_elements_no_target[OF 1 2] 3 show ?thesis by simp
qed

subsection \<open>The order of the passes\<close>

text \<open>
  Claim C2 says that the passes run in the order whitespace normalization, wrapper
  unwrapping, empty headings, empty italics, alt text, heading levels, footer relocation.
  \<open>process_file\<close> runs whitespace normalization (\<open>ensure_matching_sections\<close>) last. The two
  orders give different trees: with whitespace normalized first the tab becomes a space,
  the paragraph matches the footer pattern and moves into a new footer; in the code's
  order it stays where it is.
\<close>

theorem whitespace_first_counterexample:
  "process_tree tab_doc \<noteq> spec_order_tree tab_doc"
  by code_simp

text \<open>
  Claim C2, amended: the passes run in the order wrapper unwrapping, empty headings,
  empty italics, alt text, heading levels, footer relocation, whitespace normalization.
\<close>

theorem process_tree_order:
  "process_tree r =
     ensure_matching_sections (move_footer_elements (normalize_headings (add_alt_text
       (remove_empty_italics (remove_empty_headings (remove_redundant_wrappers r))))))"
  by (simp add: process_tree_def)

subsection \<open>A second run of process\_file\<close>

text \<open>
  The handler calls for the two texts below are those of \<open>HTMLParser\<close>: the tags, and
  the text between them in one piece each.
\<close>

lemma commons_page_events:
  "plain_events commons_page = Some (Inr [StartTag ''html'' [], StartTag ''body'' [],
     StartTag ''p'' [], Data ''Creative Commons'', EndTag ''p'', EndTag ''body'', EndTag ''html''])"
  by code_simp

lemma first_run_events:
  "plain_events first_run = Some (Inr [Decl ''DOCTYPE html'', Data [CHR 0x0A],
     StartTag ''html'' [], Data (CHR 0x0A # ''  ''),
     StartTag ''body'' [], Data (CHR 0x0A # ''    ''),
     StartTag ''main'' [], Data (CHR 0x0A # ''      ''),
     StartTag ''footer'' [], Data (CHR 0x0A # ''        ''),
     StartTag ''p'' [], Data (CHR 0x0A # ''          Creative Commons'' @ CHR 0x0A # ''        ''),
     EndTag ''p'', Data (CHR 0x0A # ''      ''),
     EndTag ''footer'', Data (CHR 0x0A # ''    ''),
     EndTag ''main'', Data (CHR 0x0A # ''  ''),
     EndTag ''body'', Data [CHR 0x0A],
     EndTag ''html'', Data [CHR 0x0A]])"
  by code_simp

text \<open>
  Claim C4: the output of parse, normalize, serialize is a fixed point of the three.

  On its own output for \<open>commons_page\<close> the second run takes the \<open>footer\<close> that the first
  run made for a candidate (its tag is a candidate tag, and it is in no other footer),
  finds the same element as the footer of \<open>main\<close>, removes it from \<open>main\<close> and appends it
  to itself: the footer and the paragraph are gone from the document.
\<close>

theorem second_run_drops_footer:
  "plain_process commons_page = Some first_run
   \<and> plain_process first_run = Some second_run
   \<and> second_run \<noteq> first_run"
proof -
  have "plain_process commons_page = Some first_run" by code_simp
  moreover have "plain_process first_run = Some second_run" by code_simp
  moreover have "second_run \<noteq> first_run" by code_simp
  ultimately show ?thesis by simp
qed

subsection \<open>Void elements have no children\<close>

lemma void_ok_child: "void_ok r \<Longrightarrow> c \<in> set (children r) \<Longrightarrow> void_ok c"
  by (cases r) auto

lemma void_ok_nonvoid: "void_ok r \<Longrightarrow> children r \<noteq> [] \<Longrightarrow> \<not> tag_in (tag r) VOID_ELEMENTS"
  by (cases r) auto

lemma void_ok_set_children:
  "void_ok (set_children n cs) = ((tag_in (tag n) VOID_ELEMENTS \<longrightarrow> cs = [])
                 \<and> (\<forall>ch \<in> set cs. void_ok ch))"
  by (simp add: set_children_def)

lemma void_ok_get_at: "void_ok r \<Longrightarrow> get_at r p = Some n \<Longrightarrow> void_ok n"
proof (induction p arbitrary: r)
  case Nil
  then show ?case by simp
next
  case (Cons i p)
  from Cons.prems(2) have i: "i < length (children r)" and g: "get_at (children r ! i) p = Some n"
    by (auto split: if_splits)
  from i Cons.prems(1) have "void_ok (children r ! i)" by (simp add: void_ok_child)
  from Cons.IH[OF this g] show ?case .
qed

lemma void_ok_modify_at:
  "void_ok r \<Longrightarrow> (\<And>n. get_at r p = Some n \<Longrightarrow> void_ok n \<Longrightarrow> void_ok (f n))
     \<Longrightarrow> void_ok (modify_at f r p)"
proof (induction p arbitrary: r)
  case Nil
  then show ?case by simp
next
  case (Cons i p)
  show ?case
  proof (cases "i < length (children r)")
    case True
    have ok: "void_ok (children r ! i)" using Cons.prems(1) True by (simp add: void_ok_child)
    have m: "void_ok (modify_at f (children r ! i) p)"
      using Cons.IH[OF ok] Cons.prems(2) True by simp
    have "\<forall>ch \<in> set ((children r)[i := modify_at f (children r ! i) p]). void_ok ch"
    proof
      fix ch assume "ch \<in> set ((children r)[i := modify_at f (children r ! i) p])"
      then have "ch \<in> insert (modify_at f (children r ! i) p) (set (children r))"
        using set_update_subset_insert by fastforce
      with m Cons.prems(1) show "void_ok ch" by (auto simp: void_ok_child)
    qed
    moreover have "\<not> tag_in (tag r) VOID_ELEMENTS"
      using True Cons.prems(1) by (intro void_ok_nonvoid) auto
    ultimately show ?thesis using True by (simp add: void_ok_set_children)
  next
    case False
    then show ?thesis using Cons.prems(1) by simp
  qed
qed

lemma void_ok_remove_at: "void_ok r \<Longrightarrow> void_ok (remove_at r p)"
proof -
  assume r: "void_ok r"
  have "void_ok (set_children n (take i (children n) @ drop (Suc i) (children n)))"
    if "void_ok n" for n i
  proof -
    have "\<forall>ch \<in> set (take i (children n) @ drop (Suc i) (children n)). void_ok ch"
      using that by (auto dest!: in_set_takeD in_set_dropD simp: void_ok_child)
    moreover have "tag_in (tag n) VOID_ELEMENTS \<longrightarrow> children n = []"
      using that void_ok_nonvoid by blast
    ultimately show ?thesis by (auto simp: void_ok_set_children)
  qed
  with r show ?thesis unfolding remove_at_def by (auto intro!: void_ok_modify_at)
qed

lemma void_ok_unwrap: "void_ok r \<Longrightarrow> void_ok (unwrap r p)"
proof -
  assume r: "void_ok r"
  have "void_ok (set_children n (take i (children n) @ children (children n ! i)
           @ drop (Suc i) (children n)))"
    if "void_ok n" "i < length (children n)" for n i
  proof -
    have c: "void_ok (children n ! i)" using that by (simp add: void_ok_child)
    have "\<forall>ch \<in> set (take i (children n) @ children (children n ! i)
           @ drop (Suc i) (children n)). void_ok ch"
    proof
      fix ch
      assume "ch \<in> set (take i (children n) @ children (children n ! i)
           @ drop (Suc i) (children n))"
      then consider "ch \<in> set (children n)" | "ch \<in> set (children (children n ! i))"
        by (auto dest: in_set_takeD in_set_dropD)
      then show "void_ok ch"
        using that(1) c void_ok_child by cases blast+
    qed
    moreover have "\<not> tag_in (tag n) VOID_ELEMENTS"
      using that by (intro void_ok_nonvoid) auto
    ultimately show ?thesis by (auto simp: void_ok_set_children)
  qed
  with r show ?thesis unfolding unwrap_def by (auto intro!: void_ok_modify_at)
qed

lemma void_ok_append_child:
  "void_ok r \<Longrightarrow> void_ok c \<Longrightarrow> \<not> tag_in (tag_at r p) VOID_ELEMENTS
     \<Longrightarrow> void_ok (append_child r p c)"
  unfolding append_child_def
  by (rule void_ok_modify_at) (auto simp: void_ok_set_children tag_at_def void_ok_child)

lemma void_ok_set_tag: "void_ok n \<Longrightarrow> t \<notin> set VOID_ELEMENTS \<Longrightarrow> void_ok (set_tag t n)"
  by (cases n) (simp add: set_tag_def tag_in_def)

lemma void_ok_set_attrs: "void_ok n \<Longrightarrow> void_ok (set_attrs a n)"
  by (cases n) (simp add: set_attrs_def)

lemma void_ok_add_alt: "void_ok n \<Longrightarrow> void_ok (add_alt n)"
  by (simp add: add_alt_def void_ok_set_attrs split: option.splits)

lemma void_ok_remove_loop: "void_ok r \<Longrightarrow> void_ok (remove_loop cond r ps)"
  by (induction cond r ps rule: remove_loop.induct)
    (auto simp: void_ok_remove_at split: option.splits)

lemma void_ok_remove_redundant_wrappers: "void_ok r \<Longrightarrow> void_ok (remove_redundant_wrappers r)"
proof (induction r rule: remove_redundant_wrappers.induct)
  case (1 r)
  then show ?case
    by (cases "find_wrapper r") (auto simp: remove_redundant_wrappers.simps[of r] void_ok_unwrap)
qed

lemma void_ok_foldl:
  "void_ok r \<Longrightarrow> (\<And>t p. void_ok t \<Longrightarrow> void_ok (f t p)) \<Longrightarrow> void_ok (foldl f r ps)"
  by (induction ps arbitrary: r) auto

lemma void_ok_add_alt_text: "void_ok r \<Longrightarrow> void_ok (add_alt_text r)"
  unfolding add_alt_text_def
  by (rule void_ok_foldl) (auto intro: void_ok_modify_at void_ok_add_alt)

lemma void_ok_retag_later: "void_ok r \<Longrightarrow> void_ok (retag_later r p)"
  unfolding retag_later_def
  by (auto intro!: void_ok_modify_at void_ok_set_tag simp: VOID_ELEMENTS_def)

lemma void_ok_retag_first: "void_ok r \<Longrightarrow> void_ok (retag_first r p)"
  unfolding retag_first_def
  by (auto intro!: void_ok_modify_at void_ok_set_tag simp: VOID_ELEMENTS_def)

lemma void_ok_normalize_headings: "void_ok r \<Longrightarrow> void_ok (normalize_headings r)"
  unfolding normalize_headings_def
  by (auto split: list.splits intro!: void_ok_foldl void_ok_retag_later void_ok_retag_first)

lemma void_ok_clean:
  "void_ok n \<Longrightarrow> void_ok (clean_whitespace n pr)"
  "(\<forall>ch \<in> set cs. void_ok ch) \<Longrightarrow> (\<forall>ch \<in> set (clean_children cs pr). void_ok ch)"
proof (induction n pr and cs pr rule: clean_whitespace_clean_children.induct)
  case (1 t a cs x d c preserve)
  then show ?case by (cases "cs = []") auto
next
  case (2 preserve)
  then show ?case by simp
next
  case (3 ch cs preserve)
  have "void_ok (set_text y ch)" for y
    using 3(4) by (cases ch) (simp add: set_text_def)
  with 3 show ?case by (auto simp: Let_def)
qed

lemma void_ok_move_loop:
  "void_ok r \<Longrightarrow> (\<And>fp. f = Some fp \<Longrightarrow> \<not> tag_in (tag_at r fp) VOID_ELEMENTS)
     \<Longrightarrow> void_ok (move_loop r f cs)"
proof (induction r f cs rule: move_loop.induct)
  case (1 r f)
  then show ?case by simp
next
  case (2 r f cs)
  then show ?case by simp
next
  case (3 r f c cs)
  show ?case
  proof (cases "get_at r c")
    case None
    with 3 show ?thesis by simp
  next
    case (Some n)
    show ?thesis
    proof (cases "c = []")
      case True
      with Some 3 show ?thesis by simp
    next
      case False
      let ?r1 = "remove_at r c"
      let ?f1 = "ref_after_remove c f"
      let ?r2 = "case ?f1 of None \<Rightarrow> ?r1 | Some fp \<Rightarrow> append_child ?r1 fp n"
      have r1: "void_ok ?r1" using "3.prems"(1) by (rule void_ok_remove_at)
      have n: "void_ok n" using "3.prems"(1) Some by (rule void_ok_get_at)
      have tag1: "tag_at ?r1 fp1 = tag_at r fp" if "f = Some fp" "after_remove c fp = Some fp1" for fp fp1
        using after_remove_get_at[OF False Some that(2)]
        by (auto simp: tag_at_def tag_remove_at split: option.splits)
      have nonvoid1: "\<not> tag_in (tag_at ?r1 fp1) VOID_ELEMENTS" if "?f1 = Some fp1" for fp1
      proof -
        from that obtain fp where "f = Some fp" "after_remove c fp = Some fp1"
          by (auto simp: ref_after_remove_def split: option.splits)
        with tag1 "3.prems"(2) show ?thesis by simp
      qed
      have r2: "void_ok ?r2"
        using r1 n nonvoid1 by (auto split: option.splits intro!: void_ok_append_child)
      have "\<not> tag_in (tag_at ?r2 fp1) VOID_ELEMENTS" if "?f1 = Some fp1" for fp1
        using nonvoid1[OF that] that
        by (auto simp: tag_at_def append_child_def get_at_modify_at_self split: option.splits)
      from "3.IH"(3)[OF Some False refl refl r2 this] Some False
      show ?thesis by (simp add: Let_def)
    qed
  qed
qed

lemma void_ok_element: "void_ok (element t a)"
  by (simp add: element_def)

lemma void_ok_wrap_in_main:
  "void_ok body \<Longrightarrow> tag body = Some ''body'' \<Longrightarrow> void_ok (wrap_in_main body)"
  by (auto simp: wrap_in_main_def void_ok_set_children element_def tag_in_def VOID_ELEMENTS_def
      void_ok_child)

lemma ensure_main_ok:
  assumes "void_ok r" and "ensure_main r = Some (r1, m, moved)"
  shows "void_ok r1 \<and> tag_at r1 m = Some ''main''"
proof (cases "iter_tags r [''main'']")
  case (Cons m' ms)
  with assms(2) have "r1 = r" "m = m'" by (auto simp: ensure_main_def)
  moreover have "tag_at r m' = Some ''main''"
    using Cons by (intro iter_tags_single_tag) auto
  ultimately show ?thesis using assms(1) by simp
next
  case Nil
  with assms(2) obtain b bs where b: "iter_tags r [''body''] = b # bs"
    and r1: "r1 = modify_at wrap_in_main r b" and m: "m = b @ [0]"
    by (auto simp: ensure_main_def split: list.splits)
  have tb: "tag_at r b = Some ''body''" using b by (intro iter_tags_single_tag) auto
  then obtain bn where bn: "get_at r b = Some bn" "tag bn = Some ''body''"
    by (auto simp: tag_at_def split: option.splits)
  have "void_ok r1" unfolding r1
    using assms(1) bn by (intro void_ok_modify_at) (auto intro: void_ok_wrap_in_main)
  moreover have "tag_at r1 m = Some ''main''"
    unfolding r1 m tag_at_def using bn
    by (simp add: get_at_modify_at_below wrap_in_main_def element_def set_children_def)
  ultimately show ?thesis by simp
qed

lemma ensure_footer_ok:
  assumes "void_ok r" and "tag_at r m = Some ''main''" and "ensure_footer r m = (r2, f)"
  shows "void_ok r2 \<and> tag_at r2 f = Some ''footer''"
proof -
  from assms(2) obtain mn where mn: "get_at r m = Some mn" "tag mn = Some ''main''"
    by (auto simp: tag_at_def split: option.splits)
  show ?thesis
  proof (cases "find_index_of (\<lambda>n. tag n = Some ''footer'') (children_at r m)")
    case (Some i)
    with assms(3) have "r2 = r" "f = m @ [i]" by (auto simp: ensure_footer_def)
    moreover from find_index_of_Some[OF Some] mn
    have "tag_at r (m @ [i]) = Some ''footer''"
      by (simp add: tag_at_def get_at_append children_at_def)
    ultimately show ?thesis using assms(1) by simp
  next
    case None
    with assms(3) have r2: "r2 = append_child r m (element ''footer'' [])"
      and f: "f = m @ [child_count r m]" by (auto simp: ensure_footer_def)
    have "void_ok r2" unfolding r2
      using assms(1,2) by (intro void_ok_append_child void_ok_element)
        (simp_all add: tag_in_def VOID_ELEMENTS_def)
    moreover have "tag_at r2 f = Some ''footer''"
      unfolding r2 f append_child_def tag_at_def using mn
      by (simp add: get_at_modify_at_below child_count_def element_def)
    ultimately show ?thesis by simp
  qed
qed

lemma void_ok_move_footer_elements: "void_ok r \<Longrightarrow> void_ok (move_footer_elements r)"
proof -
  assume r: "void_ok r"
  show ?thesis
  proof (cases "footer_setup r")
    case None
    with r show ?thesis by (simp add: move_footer_elements_def)
  next
    case (Some s)
    obtain r2 f cs where s: "s = (r2, f, cs)" by (cases s) auto
    from Some s obtain r1 m moved where em: "ensure_main r = Some (r1, m, moved)"
      and ef: "ensure_footer r1 m = (r2, f)"
      by (auto simp: footer_setup_def Let_def split: if_splits option.splits prod.splits)
    from ensure_main_ok[OF r em] have "void_ok r1" "tag_at r1 m = Some ''main''" by auto
    from ensure_footer_ok[OF this ef] have "void_ok r2" "tag_at r2 f = Some ''footer''" by auto
    then have "void_ok (move_loop r2 (Some f) (map Some cs))"
      by (intro void_ok_move_loop) (auto simp: tag_in_def VOID_ELEMENTS_def)
    with Some s show ?thesis by (simp add: move_footer_elements_def)
  qed
qed

lemma void_ok_process_tree: "void_ok r \<Longrightarrow> void_ok (process_tree r)"
  by (simp add: process_tree_def Let_def ensure_matching_sections_def void_ok_clean
      void_ok_move_footer_elements void_ok_normalize_headings void_ok_add_alt_text
      remove_empty_italics_def remove_empty_headings_def void_ok_remove_loop
      void_ok_remove_redundant_wrappers)

lemma get_at_append_child_tag:
  assumes "get_at r q = Some n"
  shows "\<exists>n'. get_at (append_child r p c) q = Some n' \<and> tag n' = tag n"
proof -
  let ?f = "\<lambda>n. set_children n (children n @ [c])"
  consider (above) p' where "p = q @ p'" | (below) q' where "q = p @ q'" "q' \<noteq> []"
    | (other) "\<not> prefix p q" "\<not> prefix q p"
    by (metis prefix_def append_Nil2)
  then show ?thesis
  proof cases
    case above
    have "tag (modify_at ?f n p') = tag n"
      by (cases p') auto
    with above assms show ?thesis
      by (simp add: append_child_def get_at_modify_at_above)
  next
    case below
    from assms below obtain m where m: "get_at r p = Some m" "get_at m q' = Some n"
      by (auto simp: get_at_append split: option.splits)
    from below(2) obtain j q'' where q': "q' = j # q''" by (cases q') auto
    with m(2) have "j < length (children m)" "get_at (children m ! j) q'' = Some n"
      by (auto split: if_splits)
    then have "get_at (?f m) q' = Some n" using q' by (simp add: nth_append)
    with below m show ?thesis
      by (simp add: append_child_def get_at_modify_at_below)
  next
    case other
    with assms show ?thesis
      by (simp add: append_child_def get_at_modify_at_other)
  qed
qed

lemma get_at_append_child_new:
  "get_at r p = Some m \<Longrightarrow> get_at (append_child r p c) (p @ [child_count r p]) = Some c"
  by (simp add: append_child_def get_at_modify_at_below child_count_def)

lemma append_top_builder_ok:
  assumes "builder_ok b" and "void_ok n" and "push \<longrightarrow> \<not> tag_in (tag n) VOID_ELEMENTS"
    and "append_top b n push = Inr b'"
  shows "builder_ok b'"
proof -
  from assms(4) have ne: "stack b \<noteq> []"
    and r': "root b' = append_child (root b) (last (stack b)) n"
    and s': "stack b' = (if push then stack b @ [last (stack b) @ [child_count (root b) (last (stack b))]]
                         else stack b)"
    by (auto simp: append_top_def Let_def split: if_splits)
  let ?p = "last (stack b)"
  from ne have pin: "?p \<in> set (stack b)" by simp
  with assms(1) have pv: "\<not> tag_in (tag_at (root b) ?p) VOID_ELEMENTS" "get_at (root b) ?p \<noteq> None"
    by (auto simp: builder_ok_def)
  have 1: "void_ok (root b')" unfolding r'
    using assms(1,2) pv(1) by (intro void_ok_append_child) (auto simp: builder_ok_def)
  have 2: "\<not> tag_in (tag_at (root b') q) VOID_ELEMENTS \<and> get_at (root b') q \<noteq> None"
    if "q \<in> set (stack b)" for q
  proof -
    from that assms(1) obtain m where m: "get_at (root b) q = Some m"
      "\<not> tag_in (tag m) VOID_ELEMENTS"
      by (auto simp: builder_ok_def tag_at_def split: option.splits)
    from get_at_append_child_tag[OF m(1), of ?p n] m(2) show ?thesis
      unfolding r' by (auto simp: tag_at_def)
  qed
  have 3: "\<not> tag_in (tag_at (root b') (?p @ [child_count (root b) ?p])) VOID_ELEMENTS
      \<and> get_at (root b') (?p @ [child_count (root b) ?p]) \<noteq> None" if push
  proof -
    from pv(2) obtain m where "get_at (root b) ?p = Some m" by auto
    from get_at_append_child_new[OF this, of n] that assms(3) show ?thesis
      unfolding r' by (simp add: tag_at_def)
  qed
  from 1 2 3 show ?thesis unfolding builder_ok_def s' by auto
qed

lemma endtag_scan_subset: "set (endtag_scan r st t i) \<subseteq> set st"
  by (induction i) (auto dest: in_set_takeD)

lemma handle_builder_ok:
  assumes "builder_ok b" and "handle b e = Inr b'"
  shows "builder_ok b'"
proof (cases e)
  case (StartTag t a)
  with assms(2) have "append_top b (element t (attrs_dict a)) (t \<notin> set VOID_ELEMENTS) = Inr b'"
    by (simp add: handle_starttag_def)
  then show ?thesis
    by (rule append_top_builder_ok[OF assms(1), rotated 2]) (simp_all add: element_def tag_in_def)
next
  case (StartEndTag t a)
  with assms(2) have "append_top b (element t (attrs_dict a)) False = Inr b'"
    by (simp add: handle_startendtag_def)
  then show ?thesis
    by (rule append_top_builder_ok[OF assms(1), rotated 2]) (simp_all add: element_def)
next
  case (EndTag t)
  with assms(2) have b': "b' = handle_endtag b t" by simp
  have "set (stack b') \<subseteq> set (stack b)" "root b' = root b"
    unfolding b' handle_endtag_def using endtag_scan_subset by simp_all
  with assms(1) show ?thesis unfolding builder_ok_def by auto
next
  case (Data d)
  show ?thesis
  proof (cases "d = []")
    case True
    with Data assms show ?thesis by (simp add: handle_data_def)
  next
    case False
    with Data assms(2) have "append_top b (text_node d) False = Inr b'"
      by (simp add: handle_data_def)
    then show ?thesis
      by (rule append_top_builder_ok[OF assms(1), rotated 2]) (simp_all add: text_node_def)
  qed
next
  case (Comment d)
  with assms(2) have "append_top b (comment_node d) False = Inr b'"
    by (simp add: handle_comment_def)
  then show ?thesis
    by (rule append_top_builder_ok[OF assms(1), rotated 2]) (simp_all add: comment_node_def)
next
  case (Decl d)
  with assms(2) have "append_top b (doctype_node d) False = Inr b'"
    by (simp add: handle_decl_def)
  then show ?thesis
    by (rule append_top_builder_ok[OF assms(1), rotated 2]) (simp_all add: doctype_node_def)
qed

lemma feed_builder_ok: "builder_ok b \<Longrightarrow> feed b es = Inr b' \<Longrightarrow> builder_ok b'"
proof (induction es arbitrary: b)
  case Nil
  then show ?case by simp
next
  case (Cons e es)
  then show ?case by (auto split: sum.splits dest: handle_builder_ok)
qed

lemma new_builder_ok: "builder_ok new_builder"
  by (simp add: builder_ok_def new_builder_def element_def tag_at_def tag_in_def
      VOID_ELEMENTS_def)

lemma void_ok_parse_html: "parse_html tokens content = Inr r \<Longrightarrow> void_ok r"
  using feed_builder_ok[OF new_builder_ok]
  by (auto simp: parse_html_def builder_ok_def split: sum.splits)

text \<open>
  Claim C8: no void element has children in any tree that the builder returns, every
  pass keeps it so (\<open>ensure_matching_sections\<close> is the whitespace pass), and so it holds
  after the whole sequence of passes.
\<close>

theorem void_elements_childless:
  "(parse_html tokens content = Inr r \<longrightarrow> void_ok r \<and> void_ok (process_tree r))
   \<and> (void_ok t \<longrightarrow>
        void_ok (remove_redundant_wrappers t) \<and> void_ok (remove_empty_headings t)
        \<and> void_ok (remove_empty_italics t) \<and> void_ok (add_alt_text t)
        \<and> void_ok (normalize_headings t) \<and> void_ok (move_footer_elements t)
        \<and> void_ok (ensure_matching_sections t))"
  by (simp add: void_ok_parse_html void_ok_process_tree ensure_matching_sections_def void_ok_clean
      void_ok_move_footer_elements void_ok_normalize_headings void_ok_add_alt_text
      remove_empty_italics_def remove_empty_headings_def void_ok_remove_loop
      void_ok_remove_redundant_wrappers)

theorem void_elements_childless_witness:
  "parse_html (\<lambda>s. Inr img_events) [] = Inr img_doc
   \<and> void_ok img_doc \<and> void_ok (process_tree img_doc)
   \<and> void_ok (move_footer_elements img_doc)"
proof -
  have p: "parse_html (\<lambda>s. Inr img_events) [] = Inr img_doc" by code_simp
  from void_elements_childless[of "\<lambda>s. Inr img_events" "[]" img_doc img_doc] p
  show ?thesis by simp
qed

subsection \<open>Heading levels\<close>

lemma iter_tags_children: "iter_tags n names = iter_tags_from 0 (children n) names"
  by (cases n) simp

lemma iter_tags_from_first:
  "q \<in> set (iter_tags_from i cs names) \<Longrightarrow> \<exists>j q'. q = j # q' \<and> i \<le> j"
  using iter_tags_valid_aux(2)[of q i cs names] by auto

lemma iter_tags_distinct_aux:
  "distinct (iter_tags n names)"
  "distinct (iter_tags_from i cs names)"
proof (induction n names and i cs names rule: iter_tags_iter_tags_from.induct)
  case (1 t a cs x d c names)
  then show ?case by simp
next
  case (2 i names)
  then show ?case by simp
next
  case (3 i c cs names)
  have a: "[i] \<notin> (#) i ` set (iter_tags c names)"
    using iter_tags_valid[of _ c names] by auto
  have b: "q \<notin> set (iter_tags_from (Suc i) cs names)" if "hd q = i" "q \<noteq> []" for q
    using iter_tags_from_first[of q "Suc i" cs names] that by auto
  show ?case
  proof (cases "truthy (tag c)")
    case True
    with 3 have "distinct (map ((#) i) (iter_tags c names))"
      by (simp add: distinct_map inj_on_def)
    with 3 a b True show ?thesis by (auto simp: distinct_map)
  next
    case False
    with 3 show ?thesis by simp
  qed
qed

lemma iter_tags_set_tag_root: "iter_tags (set_tag t n) names = iter_tags n names"
  by (cases n) (simp add: set_tag_def)

lemma iter_tags_set_children: "iter_tags (set_children n cs) names = iter_tags_from 0 cs names"
  by (simp add: set_children_def)

lemma get_text_set_tag_root: "tag n \<noteq> None \<Longrightarrow> get_text (set_tag t n) = get_text n"
  by (cases n) (auto simp: set_tag_def)

lemma get_text_set_children:
  "get_text (set_children n cs) = (if tag n = None then or_empty (node_text n)
                 else if is_comment n \<or> is_doctype n then []
                 else concat (map get_text cs))"
  by (simp add: set_children_def)

lemma iter_tags_from_update:
  "i < length cs \<Longrightarrow> truthy (tag c') = truthy (tag (cs ! i))
   \<Longrightarrow> tag_in (tag c') (filter (\<lambda>x. x \<noteq> []) names) = tag_in (tag (cs ! i)) (filter (\<lambda>x. x \<noteq> []) names)
   \<Longrightarrow> iter_tags c' names = iter_tags (cs ! i) names
   \<Longrightarrow> iter_tags_from k (cs[i := c']) names = iter_tags_from k cs names"
proof (induction cs arbitrary: i k)
  case Nil
  then show ?case by simp
next
  case (Cons c cs)
  then show ?case by (cases i) auto
qed

lemma iter_tags_set_tag:
  "truthy (tag n) \<Longrightarrow> t \<noteq> []
   \<Longrightarrow> tag_in (tag n) (filter (\<lambda>x. x \<noteq> []) names) = (t \<in> set (filter (\<lambda>x. x \<noteq> []) names))
   \<Longrightarrow> get_at r p = Some n
   \<Longrightarrow> iter_tags (modify_at (set_tag t) r p) names = iter_tags r names"
proof (induction p arbitrary: r)
  case Nil
  then show ?case by (simp add: iter_tags_set_tag_root)
next
  case (Cons i p)
  from Cons.prems(4) have i: "i < length (children r)"
    and g: "get_at (children r ! i) p = Some n" by (auto split: if_splits)
  let ?c = "modify_at (set_tag t) (children r ! i) p"
  have ih: "iter_tags ?c names = iter_tags (children r ! i) names"
    using Cons.IH[OF Cons.prems(1-3) g] .
  have tg: "truthy (tag ?c) = truthy (tag (children r ! i))
      \<and> tag_in (tag ?c) (filter (\<lambda>x. x \<noteq> []) names)
          = tag_in (tag (children r ! i)) (filter (\<lambda>x. x \<noteq> []) names)"
  proof (cases p)
    case Nil
    with g have "children r ! i = n" by simp
    with Nil Cons.prems(1-3) show ?thesis by (simp add: truthy_def tag_in_def)
  next
    case (Cons j p')
    then show ?thesis by (simp add: tag_modify_at_nonempty)
  qed
  from iter_tags_from_update[OF i _ _ ih, of 0] tg i
  show ?case
    by (simp add: iter_tags_set_children iter_tags_children[of r])
qed

lemma get_text_children:
  "get_text n = (if tag n = None then or_empty (node_text n)
                 else if is_comment n \<or> is_doctype n then []
                 else concat (map get_text (children n)))"
  by (cases n) simp

lemma get_text_set_tag:
  "get_at r p = Some n \<Longrightarrow> tag n \<noteq> None
   \<Longrightarrow> get_text (modify_at (set_tag t) r p) = get_text r"
proof (induction p arbitrary: r)
  case Nil
  then show ?case by (simp add: get_text_set_tag_root)
next
  case (Cons i p)
  from Cons.prems(1) have i: "i < length (children r)"
    and g: "get_at (children r ! i) p = Some n" by (auto split: if_splits)
  from Cons.IH[OF g Cons.prems(2)]
  have "map get_text ((children r)[i := modify_at (set_tag t) (children r ! i) p])
      = map get_text (children r)"
    using i by (simp add: map_update)
      (metis length_map list_update_id nth_map)
  with i show ?case
    by (simp add: get_text_set_children get_text_children[of r])
qed

lemma path_cases:
  obtains (above) p' where "p = q @ p'" | (below) q' where "q = p @ q'" "q' \<noteq> []"
    | (other) "\<not> prefix p q" "\<not> prefix q p"
  by (metis prefix_def append_Nil2)

lemma get_at_children_same:
  "children m = children n \<Longrightarrow> q \<noteq> [] \<Longrightarrow> get_at m q = get_at n q"
  by (cases q) auto

lemma text_at_set_tag:
  assumes "get_at r p = Some n" and "tag n \<noteq> None"
  shows "text_at (modify_at (set_tag t) r p) q = text_at r q"
proof (cases p q rule: path_cases)
  case (above p')
  show ?thesis
  proof (cases "get_at r q")
    case None
    then show ?thesis by (simp add: text_at_def above get_at_modify_at_above)
  next
    case (Some m)
    with assms(1) above have "get_at m p' = Some n" by (simp add: get_at_append)
    from get_text_set_tag[OF this assms(2)] Some show ?thesis
      by (simp add: text_at_def above get_at_modify_at_above)
  qed
next
  case (below q')
  have "get_at (set_tag t n) q' = get_at n q'"
    using below(2) by (intro get_at_children_same) simp_all
  moreover have "get_at (modify_at (set_tag t) r p) (p @ q') = get_at (set_tag t n) q'"
    using assms(1) by (simp add: get_at_modify_at_below)
  moreover have "get_at r (p @ q') = get_at n q'"
    using assms(1) by (simp add: get_at_append)
  ultimately show ?thesis
    using below by (auto simp: text_at_def)
next
  case other
  then show ?thesis by (simp add: text_at_def get_at_modify_at_other)
qed

lemma tag_at_set_tag:
  assumes "get_at r p = Some n"
  shows "tag_at (modify_at (set_tag t) r p) q = (if q = p then Some t else tag_at r q)"
proof (cases p q rule: path_cases)
  case (above p')
  show ?thesis
  proof (cases "p' = []")
    case True
    with above assms show ?thesis by (simp add: tag_at_def get_at_modify_at_self)
  next
    case False
    with above show ?thesis
      by (cases "get_at r q") (simp_all add: tag_at_def get_at_modify_at_above tag_modify_at_nonempty)
  qed
next
  case (below q')
  have "get_at (set_tag t n) q' = get_at n q'"
    using below(2) by (intro get_at_children_same) simp_all
  moreover have "get_at (modify_at (set_tag t) r p) (p @ q') = get_at (set_tag t n) q'"
    using assms(1) by (simp add: get_at_modify_at_below)
  moreover have "get_at r (p @ q') = get_at n q'"
    using assms(1) by (simp add: get_at_append)
  ultimately show ?thesis
    using below by (auto simp: tag_at_def)
next
  case other
  then have "q \<noteq> p" by auto
  with other show ?thesis by (simp add: tag_at_def get_at_modify_at_other)
qed

lemma heading_ref:
  assumes "p \<in> set (iter_tags r HEADING_TAGS)"
  obtains n where "get_at r p = Some n" "truthy (tag n)" "tag_in (tag n) HEADING_TAGS"
proof -
  from iter_tags_valid[OF assms] obtain n where n: "get_at r p = Some n" "truthy (tag n)" by blast
  from iter_tags_tag_aux(1)[of p r HEADING_TAGS] assms
  have "tag_in (tag_at r p) HEADING_TAGS" by (simp add: HEADING_TAGS_def)
  with n have "tag_in (tag n) HEADING_TAGS" by (simp add: tag_at_def)
  with n that show ?thesis by blast
qed

lemma retag_heading:
  assumes "p \<in> set (iter_tags r HEADING_TAGS)" and "t \<in> set HEADING_TAGS"
  shows "iter_tags (modify_at (set_tag t) r p) HEADING_TAGS = iter_tags r HEADING_TAGS"
    and "text_at (modify_at (set_tag t) r p) q = text_at r q"
    and "tag_at (modify_at (set_tag t) r p) q = (if q = p then Some t else tag_at r q)"
proof -
  from assms(1) obtain n where n: "get_at r p = Some n" "truthy (tag n)" "tag_in (tag n) HEADING_TAGS"
    by (rule heading_ref)
  have f: "filter (\<lambda>x. x \<noteq> []) HEADING_TAGS = HEADING_TAGS" by (simp add: HEADING_TAGS_def)
  have t: "t \<noteq> []" using assms(2) by (auto simp: HEADING_TAGS_def)
  show "iter_tags (modify_at (set_tag t) r p) HEADING_TAGS = iter_tags r HEADING_TAGS"
    using n assms(2) t by (intro iter_tags_set_tag[where n = n]) (simp_all add: f)
  from n(2) have "tag n \<noteq> None" by (auto simp: truthy_def split: option.splits)
  with n(1) show "text_at (modify_at (set_tag t) r p) q = text_at r q" by (rule text_at_set_tag)
  from n(1) show "tag_at (modify_at (set_tag t) r p) q = (if q = p then Some t else tag_at r q)"
    by (rule tag_at_set_tag)
qed

lemma retag_later_props:
  assumes "p \<in> set (iter_tags r HEADING_TAGS)"
  shows "iter_tags (retag_later r p) HEADING_TAGS = iter_tags r HEADING_TAGS"
    and "text_at (retag_later r p) q = text_at r q"
    and "tag_at (retag_later r p) q = (if q = p then later_tag (tag_at r p) else tag_at r q)"
  using retag_heading[OF assms, of "''h2''"] retag_heading[OF assms, of "''h3''"]
  by (auto simp: retag_later_def later_tag_def HEADING_TAGS_def)

lemma retag_first_props:
  assumes "p \<in> set (iter_tags r HEADING_TAGS)"
  shows "iter_tags (retag_first r p) HEADING_TAGS = iter_tags r HEADING_TAGS"
    and "text_at (retag_first r p) q = text_at r q"
    and "tag_at (retag_first r p) q = (if q = p then Some ''h1'' else tag_at r q)"
  using retag_heading[OF assms, of "''h1''"]
  by (auto simp: retag_first_def HEADING_TAGS_def)

lemma foldl_retag_later:
  "distinct ps \<Longrightarrow> set ps \<subseteq> set (iter_tags r HEADING_TAGS) \<Longrightarrow>
     iter_tags (foldl retag_later r ps) HEADING_TAGS = iter_tags r HEADING_TAGS
     \<and> (\<forall>q. text_at (foldl retag_later r ps) q = text_at r q)
     \<and> (\<forall>q. tag_at (foldl retag_later r ps) q
              = (if q \<in> set ps then later_tag (tag_at r q) else tag_at r q))"
proof (induction ps arbitrary: r)
  case Nil
  then show ?case by simp
next
  case (Cons p ps)
  from Cons.prems have p: "p \<in> set (iter_tags r HEADING_TAGS)" and d: "distinct ps" "p \<notin> set ps"
    by auto
  note step = retag_later_props[OF p]
  from Cons.prems step(1) have "set ps \<subseteq> set (iter_tags (retag_later r p) HEADING_TAGS)" by simp
  from Cons.IH[OF d(1) this] step d(2) show ?case by auto
qed

lemma headings_subset: "set (headings r) \<subseteq> set (iter_tags r HEADING_TAGS)"
  by (auto simp: headings_def)

lemma headings_distinct: "distinct (headings r)"
  by (simp add: headings_def iter_tags_distinct_aux(1))

lemma normalize_headings_props:
  "iter_tags (normalize_headings r) HEADING_TAGS = iter_tags r HEADING_TAGS
   \<and> (\<forall>q. text_at (normalize_headings r) q = text_at r q)
   \<and> (\<forall>q. tag_at (normalize_headings r) q
          = (if q \<in> set (headings r)
             then (if q = hd (headings r) then Some ''h1'' else later_tag (tag_at r q))
             else tag_at r q))"
proof (cases "headings r")
  case Nil
  then show ?thesis by (simp add: normalize_headings_def)
next
  case (Cons h hs)
  with headings_subset[of r] headings_distinct[of r]
  have h: "h \<in> set (iter_tags r HEADING_TAGS)" and hs: "set hs \<subseteq> set (iter_tags r HEADING_TAGS)"
    and d: "distinct hs" "h \<notin> set hs" by auto
  note first = retag_first_props[OF h]
  from hs first(1) have "set hs \<subseteq> set (iter_tags (retag_first r h) HEADING_TAGS)" by simp
  from foldl_retag_later[OF d(1) this] first d(2) Cons
  show ?thesis by (auto simp: normalize_headings_def)
qed

text \<open>
  \<open>normalize_headings\<close> takes the \<open>h1\<close> to \<open>h6\<close> elements whose \<open>get_text\<close> is not
  blank, in document order (the list \<open>headings\<close>). Afterwards the list is the same, its
  first element is an \<open>h1\<close>, every later one that was an \<open>h1\<close> is an \<open>h2\<close>, every later
  one that was an \<open>h4\<close>, \<open>h5\<close> or \<open>h6\<close> is an \<open>h3\<close>, the others keep their tag; so at
  most one element of the list is an \<open>h1\<close>.
\<close>

lemma normalize_headings_levels:
  "headings (normalize_headings r) = headings r
   \<and> (\<forall>i < length (headings r).
         tag_at (normalize_headings r) (headings r ! i) =
           (if i = 0 then Some ''h1''
            else if tag_at r (headings r ! i) = Some ''h1'' then Some ''h2''
            else if tag_in (tag_at r (headings r ! i)) [''h4'', ''h5'', ''h6''] then Some ''h3''
            else tag_at r (headings r ! i)))
   \<and> length (filter (\<lambda>p. tag_at (normalize_headings r) p = Some ''h1'')
               (headings (normalize_headings r))) \<le> 1"
proof -
  note props = normalize_headings_props[of r]
  have same: "headings (normalize_headings r) = headings r"
    using props by (simp add: headings_def)
  have tags: "tag_at (normalize_headings r) (headings r ! i) =
           (if i = 0 then Some ''h1'' else later_tag (tag_at r (headings r ! i)))"
    if "i < length (headings r)" for i
  proof -
    from that have "headings r ! i \<in> set (headings r)" by simp
    moreover have "headings r ! i = hd (headings r) \<longleftrightarrow> i = 0"
      using that headings_distinct[of r]
      by (metis hd_conv_nth length_greater_0_conv list.size(3) not_less_zero nth_eq_iff_index_eq)
    ultimately show ?thesis using props by simp
  qed
  have later_not_h1: "later_tag t \<noteq> Some ''h1''" for t
    by (simp add: later_tag_def)
  have "filter (\<lambda>p. tag_at (normalize_headings r) p = Some ''h1'') (headings r)
      = take 1 (headings r)"
  proof (cases "headings r")
    case Nil
    then show ?thesis by simp
  next
    case (Cons h hs)
    with headings_distinct[of r] have "h \<notin> set hs" by simp
    then have "\<forall>q \<in> set hs. tag_at (normalize_headings r) q \<noteq> Some ''h1''"
      using props Cons later_not_h1 by auto
    then have "filter (\<lambda>p. tag_at (normalize_headings r) p = Some ''h1'') hs = []"
      by (simp add: filter_empty_conv)
    moreover have "tag_at (normalize_headings r) h = Some ''h1''" using props Cons by simp
    ultimately show ?thesis using Cons by simp
  qed
  then have "length (filter (\<lambda>p. tag_at (normalize_headings r) p = Some ''h1'')
               (headings (normalize_headings r))) \<le> 1"
    unfolding same by simp
  with same tags show ?thesis by (simp add: later_tag_def)
qed

lemma normalize_headings_three_headings:
  "headings three_headings = [[0], [2], [3]]
   \<and> map (tag_at (normalize_headings three_headings)) [[0], [2], [3], [4]]
       = [Some ''h1'', Some ''h2'', Some ''h3'', Some ''h4'']"
proof -
  have h: "headings three_headings = [[0], [2], [3]]" by code_simp
  have t: "map (tag_at three_headings) [[0], [2], [3]] = [Some ''h2'', Some ''h1'', Some ''h5'']"
    by code_simp
  have 4: "tag_at (normalize_headings three_headings) [4] = Some ''h4''" by code_simp
  from normalize_headings_levels[of three_headings]
  have "\<forall>i < 3. tag_at (normalize_headings three_headings) ([[0], [2], [3]] ! i) =
           (if i = 0 then Some ''h1''
            else if tag_at three_headings ([[0], [2], [3]] ! i) = Some ''h1'' then Some ''h2''
            else if tag_in (tag_at three_headings ([[0], [2], [3]] ! i)) [''h4'', ''h5'', ''h6'']
              then Some ''h3''
            else tag_at three_headings ([[0], [2], [3]] ! i))"
    unfolding h by simp
  then have "tag_at (normalize_headings three_headings) [0] = Some ''h1''"
    "tag_at (normalize_headings three_headings) [2] = Some ''h2''"
    "tag_at (normalize_headings three_headings) [3] = Some ''h3''"
    using t by (auto simp: tag_in_def numeral_3_eq_3 less_Suc_eq)
  with h 4 show ?thesis by simp
qed

text \<open>
  Claim C6: among the headings with non-empty trimmed text in document order, the first
  is set to \<open>h1\<close>, a later \<open>h1\<close> becomes \<open>h2\<close>, a later \<open>h4\<close>, \<open>h5\<close> or \<open>h6\<close> becomes \<open>h3\<close>.

  The code selects the headings with \<open>get_text\<close>, which returns the body of a comment:
  it tests \<open>node.tag is None\<close> before \<open>node.is_comment\<close>, and a comment has no tag. In
  \<open><h3><!--c--></h3><h1>T</h1>\<close> the first heading has no text and the second has the
  text \<open>T\<close>: the one heading with non-empty text is an \<open>h1\<close> already. The code takes the
  first for a heading with text and makes it the \<open>h1\<close>, and demotes the second, the first
  heading with text, to \<open>h2\<close>.
\<close>

theorem comment_heading_takes_h1:
  "iter_tags comment_heading HEADING_TAGS = [[0], [1]]
   \<and> map (strip \<circ> spec_text_at comment_heading) [[0], [1]] = [[], ''T'']
   \<and> map (strip \<circ> text_at comment_heading) [[0], [1]] = [''c'', ''T'']
   \<and> headings comment_heading = [[0], [1]]
   \<and> map (tag_at comment_heading) [[0], [1]] = [Some ''h3'', Some ''h1'']
   \<and> map (tag_at (normalize_headings comment_heading)) [[0], [1]] = [Some ''h1'', Some ''h2'']"
proof -
  have 1: "iter_tags comment_heading HEADING_TAGS = [[0], [1]]" by code_simp
  have 2: "map (strip \<circ> spec_text_at comment_heading) [[0], [1]] = [[], ''T'']" by code_simp
  have 3: "map (strip \<circ> text_at comment_heading) [[0], [1]] = [''c'', ''T'']" by code_simp
  have 4: "headings comment_heading = [[0], [1]]" by code_simp
  have 5: "map (tag_at comment_heading) [[0], [1]] = [Some ''h3'', Some ''h1'']" by code_simp
  have 6: "map (tag_at (normalize_headings comment_heading)) [[0], [1]]
    = [Some ''h1'', Some ''h2'']" by code_simp
  from 1 2 3 4 5 6 show ?thesis by simp
qed

subsection \<open>Footer relocation\<close>


















































end
